theory Spec2Isabelle
  imports Complex_Main "HOL-Library.Word"
begin

unbundle bit_operations_syntax

section \<open>The fault-injection harness of \<^verbatim>\<open>scripts/cxxrtl/sim.cpp\<close>\<close>

text \<open>
  The harness drives a CXXRTL design for a number of clock cycles, flips random bits of
  its memory, mirrors every flip in \<^verbatim>\<open>flips_array\<close> and counts handshakes and reads
  of corrupted cells. The build modelled is the default one (\<^verbatim>\<open>VCD\<close> undefined).

  \<^verbatim>\<open>size_t\<close> and \<^verbatim>\<open>unsigned long long\<close> are 64-bit words: \<open>+\<close> wraps around as
  \<^verbatim>\<open>++\<close> does.
\<close>

type_synonym size_t = "64 word"

text \<open>
  Indexing an array outside its bounds and shifting a 64-bit value by 64 or more have no
  defined behaviour in C++. Each such place of the source is a branch of the model that
  ends the run with a fault.
\<close>

datatype fault = OutOfBounds | ShiftTooLarge

subsection \<open>The collaborators of the harness\<close>

text \<open>
  The design \<^verbatim>\<open>top\<close> (generated into \<^verbatim>\<open>test.h\<close>), the random generator with its
  distributions and the value \<^verbatim>\<open>strtod\<close> converts a numeral to are not part of the
  source file. They are parameters: \<open>'c\<close> is the state of the design, \<open>'g\<close> the state
  of \<^verbatim>\<open>std::mt19937_64\<close>.
  \<^item> \<open>depth\<close> is \<^verbatim>\<open>top.memory_p_mem.depth()\<close>, \<open>data_bits\<close> is
    \<^verbatim>\<open>top.memory_p_mem.data[0].bits\<close>;
  \<^item> \<open>p_clk_set v\<close> is \<^verbatim>\<open>top.p_clk.set<bool>(v)\<close>, \<open>step\<close> is \<^verbatim>\<open>top.step()\<close>;
  \<^item> \<open>data_bit c cell bit\<close> is \<^verbatim>\<open>top.memory_p_mem.data[cell].bit(bit)\<close> and
    \<open>data_set_bit cell bit v\<close> is \<^verbatim>\<open>top.memory_p_mem.data[cell].set_bit(bit, v)\<close>;
  \<^item> the other \<open>p_\<close> fields read a port with \<^verbatim>\<open>get\<close>: \<open>p_rsp_ready\<close> is
    \<^verbatim>\<open>top.p_rsp____ready.get<bool>()\<close>, \<open>p_sram_clk_en\<close> is
    \<^verbatim>\<open>top.p_sram____clk__en.get<bool>()\<close>, \<open>p_sram_addr\<close> is
    \<^verbatim>\<open>top.p_sram____addr.get<size_t>()\<close>, and so on;
  \<^item> \<open>poisson_distribution mean g\<close> draws from \<^verbatim>\<open>std::poisson_distribution<size_t>\<close>
    with the given mean and \<open>uniform_int_distribution a b g\<close> from
    \<^verbatim>\<open>std::uniform_int_distribution<size_t>\<close> over \<^verbatim>\<open>[a, b]\<close>; both return the value drawn
    and the generator after the draw. What they draw is left open: a property that
    depends on it says so in a hypothesis;
  \<^item> \<open>strtod_value s\<close> is the \<^verbatim>\<open>double\<close> the C library converts \<open>s\<close> to when \<open>s\<close>
    starts with a floating-point numeral.
\<close>

record ('c, 'g) env =
  depth :: size_t
  data_bits :: size_t
  p_clk_set :: "bool \<Rightarrow> 'c \<Rightarrow> 'c"
  step :: "'c \<Rightarrow> 'c"
  data_bit :: "'c \<Rightarrow> nat \<Rightarrow> nat \<Rightarrow> bool"
  data_set_bit :: "nat \<Rightarrow> nat \<Rightarrow> bool \<Rightarrow> 'c \<Rightarrow> 'c"
  p_rsp_ready :: "'c \<Rightarrow> bool"
  p_rsp_valid :: "'c \<Rightarrow> bool"
  p_req_valid :: "'c \<Rightarrow> bool"
  p_req_ready :: "'c \<Rightarrow> bool"
  p_sram_clk_en :: "'c \<Rightarrow> bool"
  p_sram_write_en :: "'c \<Rightarrow> bool"
  p_sram_addr :: "'c \<Rightarrow> size_t"
  poisson_distribution :: "real \<Rightarrow> 'g \<Rightarrow> size_t \<times> 'g"
  uniform_int_distribution :: "size_t \<Rightarrow> size_t \<Rightarrow> 'g \<Rightarrow> size_t \<times> 'g"
  strtod_value :: "string \<Rightarrow> real"

text \<open>The two file-level constants and the three distributions \<^verbatim>\<open>main\<close> sets up.\<close>

definition num_memory_cells :: "('c, 'g) env \<Rightarrow> size_t" where
  "num_memory_cells E = depth E"

definition num_memory_bits :: "('c, 'g) env \<Rightarrow> size_t" where
  "num_memory_bits E = data_bits E"

definition num_flips :: "('c, 'g) env \<Rightarrow> real \<Rightarrow> 'g \<Rightarrow> size_t \<times> 'g" where
  "num_flips E lambda = poisson_distribution E lambda"

definition memory_cell :: "('c, 'g) env \<Rightarrow> 'g \<Rightarrow> size_t \<times> 'g" where
  "memory_cell E = uniform_int_distribution E 0 (num_memory_cells E - 1)"

definition memory_bit :: "('c, 'g) env \<Rightarrow> 'g \<Rightarrow> size_t \<times> 'g" where
  "memory_bit E = uniform_int_distribution E 0 (num_memory_bits E - 1)"

subsection \<open>The shadow of the flipped bits\<close>

text \<open>
  \<^verbatim>\<open>flips_array\<close> is a list of words, one for each memory cell. The three operations
  the loop performs on it:
  \<^item> \<open>flip\<close> is \<^verbatim>\<open>flips_array[cell] ^= (1ull << bit)\<close>;
  \<^item> \<open>clear\<close> is \<^verbatim>\<open>flips_array[sram_addr] = 0\<close>;
  \<^item> \<open>popcount\<close> is \<^verbatim>\<open>std::__popcount\<close> of a 64-bit value.
\<close>

definition flip :: "size_t list \<Rightarrow> size_t \<Rightarrow> size_t \<Rightarrow> fault + size_t list" where
  "flip fa cell bt =
     (if \<not> unat bt < 64 then Inl ShiftTooLarge
      else if \<not> unat cell < length fa then Inl OutOfBounds
      else Inr (fa[unat cell := (fa ! unat cell) XOR push_bit (unat bt) 1]))"

definition clear :: "size_t list \<Rightarrow> size_t \<Rightarrow> fault + size_t list" where
  "clear fa cell =
     (if \<not> unat cell < length fa then Inl OutOfBounds
      else Inr (fa[unat cell := 0]))"

definition popcount :: "size_t \<Rightarrow> nat" where
  "popcount w = length (filter (bit w) [0..<64])"

subsection \<open>The state of the run\<close>

text \<open>
  The variables \<^verbatim>\<open>main\<close> updates in its loop: the design (\<open>top_design\<close> is the
  global \<^verbatim>\<open>top\<close>), the generator, the shadow, the five counters and the histogram.
\<close>

record ('c, 'g) sim =
  top_design :: 'c
  generator :: 'g
  flips_array :: "size_t list"
  req_valid_cycles :: size_t
  req_fire_cycles :: size_t
  rsp_ready_cycles :: size_t
  rsp_fire_cycles :: size_t
  errors_injected :: size_t
  read_with_errors :: "size_t list"

text \<open>\<^verbatim>\<open>clk()\<close>: the clock goes high, the design steps, the clock goes low, it steps again.\<close>

definition clk :: "('c, 'g) env \<Rightarrow> 'c \<Rightarrow> 'c" where
  "clk E c = step E (p_clk_set E False (step E (p_clk_set E True c)))"

subsection \<open>Injecting the flips of one cycle\<close>

text \<open>
  The body of \<^verbatim>\<open>while(flips--)\<close>: draw a cell and a bit, toggle the bit in the shadow and
  in the memory of the design, count the flip. The memory of the design is indexed
  within its bounds when the cell is below \<^verbatim>\<open>num_memory_cells\<close> and the bit below
  \<^verbatim>\<open>num_memory_bits\<close>. \<open>drawn_cell\<close> and \<open>drawn_bit\<close> name the two values the body draws
  when it runs in state \<open>s\<close>.
\<close>

definition drawn_cell :: "('c, 'g) env \<Rightarrow> ('c, 'g) sim \<Rightarrow> size_t" where
  "drawn_cell E s = fst (memory_cell E (generator s))"

definition drawn_bit :: "('c, 'g) env \<Rightarrow> ('c, 'g) sim \<Rightarrow> size_t" where
  "drawn_bit E s = fst (memory_bit E (snd (memory_cell E (generator s))))"

definition inject_one :: "('c, 'g) env \<Rightarrow> ('c, 'g) sim \<Rightarrow> fault + ('c, 'g) sim" where
  "inject_one E s =
     (let (cell, g1) = memory_cell E (generator s);
          (bt, g2) = memory_bit E g1
      in case flip (flips_array s) cell bt of
           Inl f \<Rightarrow> Inl f
         | Inr fa \<Rightarrow>
             if \<not> (cell < num_memory_cells E \<and> bt < num_memory_bits E) then Inl OutOfBounds
             else
               let was = data_bit E (top_design s) (unat cell) (unat bt);
                   c = data_set_bit E (unat cell) (unat bt) (\<not> was) (top_design s)
               in Inr (s\<lparr>generator := g2, flips_array := fa, top_design := c,
                         errors_injected := errors_injected s + 1\<rparr>))"

text \<open>\<^verbatim>\<open>while(flips--)\<close>: the body runs until the count, decremented each time, is zero.\<close>

function inject_loop :: "('c, 'g) env \<Rightarrow> size_t \<Rightarrow> ('c, 'g) sim \<Rightarrow> fault + ('c, 'g) sim" where
  "inject_loop E flips s =
     (if flips = 0 then Inr s
      else case inject_one E s of
             Inl f \<Rightarrow> Inl f
           | Inr s' \<Rightarrow> inject_loop E (flips - 1) s')"
  by pat_completeness auto
termination
  by (relation "measure (\<lambda>(E, flips, s). unat flips)") (auto simp add: measure_unat)

text \<open>
  \<open>drawn_flips\<close> is the count \<^verbatim>\<open>num_flips(generator)\<close> returns in the cycle that starts in
  state \<open>s\<close>; \<open>inject_flips\<close> draws it and runs the loop.
\<close>

definition drawn_flips :: "('c, 'g) env \<Rightarrow> real \<Rightarrow> ('c, 'g) sim \<Rightarrow> size_t" where
  "drawn_flips E lambda s = fst (num_flips E lambda (generator s))"

definition inject_flips :: "('c, 'g) env \<Rightarrow> real \<Rightarrow> ('c, 'g) sim \<Rightarrow> fault + ('c, 'g) sim" where
  "inject_flips E lambda s =
     (let (flips, g) = num_flips E lambda (generator s)
      in inject_loop E flips (s\<lparr>generator := g\<rparr>))"

subsection \<open>Observing the ports\<close>

text \<open>The handshake counters, in the order of the source.\<close>

definition count_rsp_ready :: "('c, 'g) env \<Rightarrow> ('c, 'g) sim \<Rightarrow> ('c, 'g) sim" where
  "count_rsp_ready E s =
     (if p_rsp_ready E (top_design s)
      then s\<lparr>rsp_ready_cycles := rsp_ready_cycles s + 1\<rparr> else s)"

definition count_rsp_fire :: "('c, 'g) env \<Rightarrow> ('c, 'g) sim \<Rightarrow> ('c, 'g) sim" where
  "count_rsp_fire E s =
     (if p_rsp_valid E (top_design s) \<and> p_rsp_ready E (top_design s)
      then s\<lparr>rsp_fire_cycles := rsp_fire_cycles s + 1\<rparr> else s)"

definition count_req :: "('c, 'g) env \<Rightarrow> ('c, 'g) sim \<Rightarrow> ('c, 'g) sim" where
  "count_req E s =
     (if p_req_valid E (top_design s)
      then (let s1 = s\<lparr>req_valid_cycles := req_valid_cycles s + 1\<rparr>
            in if p_req_ready E (top_design s1)
               then s1\<lparr>req_fire_cycles := req_fire_cycles s1 + 1\<rparr> else s1)
      else s)"

definition count_handshakes :: "('c, 'g) env \<Rightarrow> ('c, 'g) sim \<Rightarrow> ('c, 'g) sim" where
  "count_handshakes E s = count_req E (count_rsp_fire E (count_rsp_ready E s))"

text \<open>
  The three SRAM control signals are sampled once. A read (\<^verbatim>\<open>sram_clk_en && !sram_write_en\<close>)
  adds one to the histogram entry of the popcount of the shadow at the address; a
  write (\<^verbatim>\<open>sram_clk_en && sram_write_en\<close>) clears the shadow at the address.
\<close>

definition count_read :: "size_t list \<Rightarrow> size_t list \<Rightarrow> size_t \<Rightarrow> fault + size_t list" where
  "count_read fa rwe sram_addr =
     (if \<not> unat sram_addr < length fa then Inl OutOfBounds
      else let popcnt = popcount (fa ! unat sram_addr)
           in if \<not> popcnt < length rwe then Inl OutOfBounds
              else Inr (rwe[popcnt := rwe ! popcnt + 1]))"

definition observe_sram :: "('c, 'g) env \<Rightarrow> ('c, 'g) sim \<Rightarrow> fault + ('c, 'g) sim" where
  "observe_sram E s =
     (let sram_clk_en = p_sram_clk_en E (top_design s);
          sram_write_en = p_sram_write_en E (top_design s);
          sram_addr = p_sram_addr E (top_design s)
      in case (if sram_clk_en \<and> \<not> sram_write_en
               then (case count_read (flips_array s) (read_with_errors s) sram_addr of
                       Inl f \<Rightarrow> Inl f
                     | Inr rwe \<Rightarrow> Inr (s\<lparr>read_with_errors := rwe\<rparr>))
               else Inr s) of
           Inl f \<Rightarrow> Inl f
         | Inr s1 \<Rightarrow>
             if sram_clk_en \<and> sram_write_en
             then (case clear (flips_array s1) sram_addr of
                     Inl f \<Rightarrow> Inl f
                   | Inr fa \<Rightarrow> Inr (s1\<lparr>flips_array := fa\<rparr>))
             else Inr s1)"

subsection \<open>One cycle and the loop over the cycles\<close>

text \<open>
  The body of the \<^verbatim>\<open>for\<close> loop: inject the flips drawn, count the handshakes, look at
  the SRAM signals, clock the design.
\<close>

definition cycle :: "('c, 'g) env \<Rightarrow> real \<Rightarrow> ('c, 'g) sim \<Rightarrow> fault + ('c, 'g) sim" where
  "cycle E lambda s =
     (case inject_flips E lambda s of
        Inl f \<Rightarrow> Inl f
      | Inr s1 \<Rightarrow>
          (case observe_sram E (count_handshakes E s1) of
             Inl f \<Rightarrow> Inl f
           | Inr s2 \<Rightarrow> Inr (s2\<lparr>top_design := clk E (top_design s2)\<rparr>)))"

text \<open>
  \<^verbatim>\<open>for (size_t clk_cycle = 0; clk_cycle < total_cycles; ++clk_cycle)\<close>, entered at
  \<open>clk_cycle\<close>.
\<close>

function main_loop ::
  "('c, 'g) env \<Rightarrow> real \<Rightarrow> size_t \<Rightarrow> size_t \<Rightarrow> ('c, 'g) sim \<Rightarrow> fault + ('c, 'g) sim" where
  "main_loop E lambda total_cycles clk_cycle s =
     (if clk_cycle < total_cycles
      then case cycle E lambda s of
             Inl f \<Rightarrow> Inl f
           | Inr s' \<Rightarrow> main_loop E lambda total_cycles (clk_cycle + 1) s'
      else Inr s)"
  by pat_completeness auto
termination
proof (relation "measure (\<lambda>(E, lambda, total_cycles, clk_cycle, s). unat total_cycles - unat clk_cycle)")
  show "wf (measure (\<lambda>(E :: ('c, 'g) env, lambda :: real, total_cycles :: size_t,
                        clk_cycle :: size_t, s :: ('c, 'g) sim).
                      unat total_cycles - unat clk_cycle))"
    by simp
next
  fix E :: "('c, 'g) env" and lambda :: real and total_cycles clk_cycle :: size_t
    and s x2 :: "('c, 'g) sim"
  assume lt: "clk_cycle < total_cycles"
  then have "unat clk_cycle < unat total_cycles"
    by (simp add: word_less_nat_alt)
  moreover from lt have "unat (clk_cycle + 1) = unat clk_cycle + 1"
    by unat_arith
  ultimately show "((E, lambda, total_cycles, clk_cycle + 1, x2), (E, lambda, total_cycles, clk_cycle, s))
        \<in> measure (\<lambda>(E, lambda, total_cycles, clk_cycle, s). unat total_cycles - unat clk_cycle)"
    by simp
qed

subsection \<open>The arguments\<close>

text \<open>
  \<^verbatim>\<open>std::strtoull(argv[1], NULL, 10)\<close> as ISO C describes it: white space is skipped, a
  sign is optional, the longest run of decimal digits is the numeral. Without a digit no
  conversion is performed and the result is 0; a numeral beyond \<^verbatim>\<open>ULLONG_MAX\<close> gives
  \<^verbatim>\<open>ULLONG_MAX\<close>; a minus sign negates the value in the unsigned type.
\<close>

definition isspace :: "char \<Rightarrow> bool" where
  "isspace c = (c = CHR '' '' \<or> (9 \<le> (of_char c :: nat) \<and> (of_char c :: nat) \<le> 13))"

definition isdigit :: "char \<Rightarrow> bool" where
  "isdigit c = (48 \<le> (of_char c :: nat) \<and> (of_char c :: nat) \<le> 57)"

definition skip_sign :: "string \<Rightarrow> string" where
  "skip_sign t =
     (case t of
        [] \<Rightarrow> []
      | c # r \<Rightarrow> if c = CHR ''-'' \<or> c = CHR ''+'' then r else t)"

definition strtoull :: "string \<Rightarrow> size_t" where
  "strtoull s =
     (let t = dropWhile isspace s;
          negative = (case t of [] \<Rightarrow> False | c # r \<Rightarrow> c = CHR ''-'');
          digits = takeWhile isdigit (skip_sign t);
          v = foldl (\<lambda>a c. 10 * a + (of_char c - 48)) (0 :: nat) digits
      in if 2 ^ 64 \<le> v then - 1
         else if negative then - of_nat v
         else of_nat v)"

text \<open>
  \<^verbatim>\<open>std::strtod(argv[2], NULL)\<close>: after white space and an optional sign, a numeral starts
  with a digit, with a point followed by a digit, or with \<^verbatim>\<open>inf\<close> or \<^verbatim>\<open>nan\<close> in either
  case. Anything else is not converted and the result is zero. The value of a numeral
  is the C library's.
\<close>

definition tolower :: "char \<Rightarrow> char" where
  "tolower c =
     (if 65 \<le> (of_char c :: nat) \<and> (of_char c :: nat) \<le> 90
      then char_of ((of_char c :: nat) + 32) else c)"

definition strtod_converts :: "string \<Rightarrow> bool" where
  "strtod_converts s =
     (case skip_sign (dropWhile isspace s) of
        [] \<Rightarrow> False
      | c # r \<Rightarrow>
          isdigit c
          \<or> (c = CHR ''.'' \<and> (case r of [] \<Rightarrow> False | d # r' \<Rightarrow> isdigit d))
          \<or> map tolower (take 3 (c # r)) = ''inf''
          \<or> map tolower (take 3 (c # r)) = ''nan'')"

definition strtod :: "('c, 'g) env \<Rightarrow> string \<Rightarrow> real" where
  "strtod E s = (if strtod_converts s then strtod_value E s else 0)"

subsection \<open>The report and \<^verbatim>\<open>main\<close>\<close>

text \<open>
  Each \<^verbatim>\<open>printf\<close> of the report is a line: its label and the number printed. Every
  number is printed with \<^verbatim>\<open>%zd\<close>, the conversion of a signed value: a counter is shown
  as the two's complement reading \<open>sint\<close> of its 64 bits, negative from \<open>2 ^ 63\<close> on. The
  histogram is printed for the indices 0 to 4, whatever the length of
  \<^verbatim>\<open>read_with_errors\<close>.
\<close>

type_synonym line = "string \<times> int"

definition bucket_label :: "nat \<Rightarrow> string" where
  "bucket_label i = ''read_with_errors['' @ [char_of (48 + i)] @ '']''"

definition report :: "('c, 'g) sim \<Rightarrow> fault + line list" where
  "report s =
     (if \<not> 5 \<le> length (read_with_errors s) then Inl OutOfBounds
      else Inr ([(''req_valid_cycles'', sint (req_valid_cycles s)),
                 (''req_fire_cycles'', sint (req_fire_cycles s)),
                 (''rsp_ready_cycles'', sint (rsp_ready_cycles s)),
                 (''rsp_fire_cycles'', sint (rsp_fire_cycles s)),
                 (''errors_injected'', sint (errors_injected s))]
                @ map (\<lambda>i. (bucket_label i, sint (read_with_errors s ! i))) [0..<5]))"

text \<open>The state before the loop: the shadow, the counters and the histogram are zero.\<close>

definition init_sim :: "('c, 'g) env \<Rightarrow> 'c \<Rightarrow> 'g \<Rightarrow> ('c, 'g) sim" where
  "init_sim E c g =
     \<lparr>top_design = c, generator = g,
      flips_array = replicate (unat (num_memory_cells E)) 0,
      req_valid_cycles = 0, req_fire_cycles = 0,
      rsp_ready_cycles = 0, rsp_fire_cycles = 0,
      errors_injected = 0,
      read_with_errors = replicate (unat (num_memory_bits E + 1)) 0\<rparr>"

text \<open>
  What the process leaves behind: its exit status, the lines printed, and the design.
  \<open>main E c g argv\<close> is \<^verbatim>\<open>main\<close> called with the arguments \<open>argv\<close> (\<^verbatim>\<open>argc\<close> is their
  number) when the design is in state \<open>c\<close> and the generator, once seeded, in state \<open>g\<close>.
\<close>

record 'c exit =
  status :: int
  stdout :: "line list"
  top_at_exit :: 'c

definition main :: "('c, 'g) env \<Rightarrow> 'c \<Rightarrow> 'g \<Rightarrow> string list \<Rightarrow> fault + 'c exit" where
  "main E c g argv =
     (if int (length argv) < 3 then Inr \<lparr>status = 1, stdout = [], top_at_exit = c\<rparr>
      else
        let total_cycles = strtoull (argv ! 1);
            lambda = strtod E (argv ! 2);
            c1 = step E (p_clk_set E False c)
        in case main_loop E lambda total_cycles 0 (init_sim E c1 g) of
             Inl f \<Rightarrow> Inl f
           | Inr s \<Rightarrow>
               let c2 = step E (p_clk_set E False (top_design s))
               in (case report s of
                     Inl f \<Rightarrow> Inl f
                   | Inr out \<Rightarrow> Inr \<lparr>status = 0, stdout = out, top_at_exit = c2\<rparr>))"

section \<open>Notions the properties are stated with\<close>

subsection \<open>Read cycles, write cycles and the states a run passes through\<close>

text \<open>
  A cycle is a read cycle when the sampled signals satisfy \<^verbatim>\<open>sram_clk_en && !sram_write_en\<close>
  and a write cycle when they satisfy \<^verbatim>\<open>sram_clk_en && sram_write_en\<close>.
\<close>

definition read_cycle :: "('c, 'g) env \<Rightarrow> 'c \<Rightarrow> bool" where
  "read_cycle E c = (p_sram_clk_en E c \<and> \<not> p_sram_write_en E c)"

definition write_cycle :: "('c, 'g) env \<Rightarrow> 'c \<Rightarrow> bool" where
  "write_cycle E c = (p_sram_clk_en E c \<and> p_sram_write_en E c)"

text \<open>
  \<open>cycle_starts\<close> lists the states in which the body of the \<^verbatim>\<open>for\<close> loop is entered,
  one for each cycle executed, in order.
\<close>

function cycle_starts ::
  "('c, 'g) env \<Rightarrow> real \<Rightarrow> size_t \<Rightarrow> size_t \<Rightarrow> ('c, 'g) sim \<Rightarrow> ('c, 'g) sim list" where
  "cycle_starts E lambda total_cycles clk_cycle s =
     (if clk_cycle < total_cycles
      then s # (case cycle E lambda s of
                  Inl f \<Rightarrow> []
                | Inr s' \<Rightarrow> cycle_starts E lambda total_cycles (clk_cycle + 1) s')
      else [])"
  by pat_completeness auto
termination
proof (relation "measure (\<lambda>(E, lambda, total_cycles, clk_cycle, s). unat total_cycles - unat clk_cycle)")
  show "wf (measure (\<lambda>(E :: ('c, 'g) env, lambda :: real, total_cycles :: size_t,
                        clk_cycle :: size_t, s :: ('c, 'g) sim).
                      unat total_cycles - unat clk_cycle))"
    by simp
next
  fix E :: "('c, 'g) env" and lambda :: real and total_cycles clk_cycle :: size_t
    and s x2 :: "('c, 'g) sim"
  assume lt: "clk_cycle < total_cycles"
  then have "unat clk_cycle < unat total_cycles"
    by (simp add: word_less_nat_alt)
  moreover from lt have "unat (clk_cycle + 1) = unat clk_cycle + 1"
    by unat_arith
  ultimately show "((E, lambda, total_cycles, clk_cycle + 1, x2), (E, lambda, total_cycles, clk_cycle, s))
        \<in> measure (\<lambda>(E, lambda, total_cycles, clk_cycle, s). unat total_cycles - unat clk_cycle)"
    by simp
qed

text \<open>
  A cycle that starts in \<open>s\<close> observes a read when, after its injections, the sampled
  signals are those of a read cycle.
\<close>

definition read_observed :: "('c, 'g) env \<Rightarrow> real \<Rightarrow> ('c, 'g) sim \<Rightarrow> bool" where
  "read_observed E lambda s =
     (case inject_flips E lambda s of
        Inl f \<Rightarrow> False
      | Inr s1 \<Rightarrow> read_cycle E (top_design s1))"

text \<open>
  The handshake counters change one at a time. \<open>handshake_points E s1\<close> lists the states
  after each single increment when the counting starts in \<open>s1\<close>; \<open>cycle_points\<close> lists
  them for the cycle that starts in \<open>s\<close>.
\<close>

definition handshake_points :: "('c, 'g) env \<Rightarrow> ('c, 'g) sim \<Rightarrow> ('c, 'g) sim list" where
  "handshake_points E s1 =
     (let a = count_rsp_ready E s1;
          b = count_rsp_fire E a
      in [a, b]
         @ (if p_req_valid E (top_design b)
            then [b\<lparr>req_valid_cycles := req_valid_cycles b + 1\<rparr>] else [])
         @ [count_req E b])"

definition cycle_points :: "('c, 'g) env \<Rightarrow> real \<Rightarrow> ('c, 'g) sim \<Rightarrow> ('c, 'g) sim list" where
  "cycle_points E lambda s =
     (case inject_flips E lambda s of
        Inl f \<Rightarrow> []
      | Inr s1 \<Rightarrow> handshake_points E s1)"

definition handshakes_ordered :: "('c, 'g) sim \<Rightarrow> bool" where
  "handshakes_ordered s =
     (req_fire_cycles s \<le> req_valid_cycles s \<and> rsp_fire_cycles s \<le> rsp_ready_cycles s)"

text \<open>
  \<open>counted_within k s\<close>: the counters are ordered and neither valid nor ready counter
  exceeds \<open>k\<close>, as holds after \<open>k\<close> cycles.
\<close>

definition counted_within :: "nat \<Rightarrow> ('c, 'g) sim \<Rightarrow> bool" where
  "counted_within k s =
     (handshakes_ordered s \<and> unat (req_valid_cycles s) \<le> k \<and> unat (rsp_ready_cycles s) \<le> k)"

text \<open>
  \<open>fire_with_valid s s'\<close>: from \<open>s\<close> to \<open>s'\<close> a fire counter has changed only together
  with one more count of its valid or ready counter.
\<close>

definition fire_with_valid :: "('c, 'g) sim \<Rightarrow> ('c, 'g) sim \<Rightarrow> bool" where
  "fire_with_valid s s' =
     ((req_fire_cycles s' \<noteq> req_fire_cycles s \<longrightarrow>
         req_fire_cycles s' = req_fire_cycles s + 1
         \<and> req_valid_cycles s' = req_valid_cycles s + 1)
      \<and> (rsp_fire_cycles s' \<noteq> rsp_fire_cycles s \<longrightarrow>
         rsp_fire_cycles s' = rsp_fire_cycles s + 1
         \<and> rsp_ready_cycles s' = rsp_ready_cycles s + 1))"

subsection \<open>The report\<close>

text \<open>The labels of the report in the order printed, and the report of a run that counted nothing.\<close>

definition report_labels :: "string list" where
  "report_labels =
     [''req_valid_cycles'', ''req_fire_cycles'', ''rsp_ready_cycles'', ''rsp_fire_cycles'',
      ''errors_injected'', ''read_with_errors[0]'', ''read_with_errors[1]'',
      ''read_with_errors[2]'', ''read_with_errors[3]'', ''read_with_errors[4]'']"

definition zero_report :: "line list" where
  "zero_report = map (\<lambda>l. (l, 0)) report_labels"

text \<open>\<open>reported r l\<close> is the number the report of \<open>r\<close> shows under the label \<open>l\<close>.\<close>

definition reported :: "'c exit \<Rightarrow> string \<Rightarrow> int option" where
  "reported r l = map_of (stdout r) l"

text \<open>\<^verbatim>\<open>read_with_errors\<close> has the five entries the report prints.\<close>

definition histogram_printable :: "('c, 'g) env \<Rightarrow> bool" where
  "histogram_printable E = (5 \<le> unat (num_memory_bits E + 1))"

subsection \<open>The cycles of a run of \<^verbatim>\<open>main\<close>\<close>

text \<open>
  \<open>run_starts\<close> lists the states in which the cycles of \<open>main E c g argv\<close> start, and
  \<open>flips_log\<close> the number of flips \<^verbatim>\<open>num_flips(generator)\<close> returned in each of them.
\<close>

definition run_starts :: "('c, 'g) env \<Rightarrow> 'c \<Rightarrow> 'g \<Rightarrow> string list \<Rightarrow> ('c, 'g) sim list" where
  "run_starts E c g argv =
     cycle_starts E (strtod E (argv ! 2)) (strtoull (argv ! 1)) 0
       (init_sim E (step E (p_clk_set E False c)) g)"

text \<open>\<open>run_end\<close> is the state in which the loop of \<open>main E c g argv\<close> ends.\<close>

definition run_end :: "('c, 'g) env \<Rightarrow> 'c \<Rightarrow> 'g \<Rightarrow> string list \<Rightarrow> fault + ('c, 'g) sim" where
  "run_end E c g argv =
     main_loop E (strtod E (argv ! 2)) (strtoull (argv ! 1)) 0
       (init_sim E (step E (p_clk_set E False c)) g)"

definition flips_log :: "('c, 'g) env \<Rightarrow> 'c \<Rightarrow> 'g \<Rightarrow> string list \<Rightarrow> size_t list" where
  "flips_log E c g argv = map (drawn_flips E (strtod E (argv ! 2))) (run_starts E c g argv)"

subsection \<open>Arguments that are not numerals\<close>

text \<open>\<^verbatim>\<open>strtoull\<close> converts when a digit follows the white space and the optional sign.\<close>

definition strtoull_converts :: "string \<Rightarrow> bool" where
  "strtoull_converts s = (takeWhile isdigit (skip_sign (dropWhile isspace s)) \<noteq> [])"

subsection \<open>Collaborators that keep the run inside its arrays\<close>

text \<open>
  What the run relies on to stay within its arrays: a cell holds at least 4 and at most 64
  bits (the report prints five histogram entries, the shadow of a cell is one 64-bit
  word), the two uniform distributions draw below the number of cells and of bits, as
  distributions over \<^verbatim>\<open>[0, n - 1]\<close> do when \<open>n\<close> is positive, and the address on the SRAM
  port of an enabled cycle is that of a cell.
\<close>

definition well_formed :: "('c, 'g) env \<Rightarrow> bool" where
  "well_formed E =
     (4 \<le> num_memory_bits E \<and> num_memory_bits E \<le> 64
      \<and> (\<forall>g. fst (memory_cell E g) < num_memory_cells E)
      \<and> (\<forall>g. fst (memory_bit E g) < num_memory_bits E)
      \<and> (\<forall>c. p_sram_clk_en E c \<longrightarrow> p_sram_addr E c < num_memory_cells E))"

text \<open>
  The arrays have the sizes \<^verbatim>\<open>main\<close> gave them, and only bits of a cell are set in its
  shadow.
\<close>

definition arrays_ok :: "('c, 'g) env \<Rightarrow> ('c, 'g) sim \<Rightarrow> bool" where
  "arrays_ok E s =
     (length (flips_array s) = unat (num_memory_cells E)
      \<and> length (read_with_errors s) = unat (num_memory_bits E) + 1
      \<and> (\<forall>w \<in> set (flips_array s). \<forall>i. bit w i \<longrightarrow> i < unat (num_memory_bits E)))"

subsection \<open>Three test benches\<close>

text \<open>
  \<open>bench\<close>: 16 cells of 8 bits. A step adds one to the state of the design, so the
  cycles are sampled in the states 1, 3, 5, ... Every cycle is an access to cell 3, a
  write in state 3 and a read otherwise. The generator counts the bits drawn: while
  fewer than two have been drawn a cycle draws as many flips as the floor of the mean,
  later cycles none; every flip hits cell 3, at bit 5 and bit 6 in turn.
\<close>

definition bench :: "(nat, nat) env" where
  "bench =
     \<lparr>depth = 16, data_bits = 8,
      p_clk_set = (\<lambda>v c. c),
      step = Suc,
      data_bit = (\<lambda>c cell bt. False),
      data_set_bit = (\<lambda>cell bt v c. c),
      p_rsp_ready = (\<lambda>c. True),
      p_rsp_valid = (\<lambda>c. c mod 4 = 1),
      p_req_valid = (\<lambda>c. c mod 4 = 3),
      p_req_ready = (\<lambda>c. True),
      p_sram_clk_en = (\<lambda>c. True),
      p_sram_write_en = (\<lambda>c. c = 3),
      p_sram_addr = (\<lambda>c. 3),
      poisson_distribution = (\<lambda>mean g. (if g < 2 then of_nat (nat \<lfloor>mean\<rfloor>) else 0, g)),
      uniform_int_distribution =
        (\<lambda>a b g. if b = 15 then (3, g) else (if even g then 5 else 6, Suc g)),
      strtod_value = (\<lambda>s. real (unat (strtoull s)))\<rparr>"

text \<open>
  The states of \<open>bench\<close> at the start of the first four cycles of a run with mean 1:
  bit 5 of cell 3 is flipped and read, bit 6 is flipped and the cell is written, then
  nothing is flipped and the cell is read.
\<close>

definition bench_0 :: "(nat, nat) sim" where
  "bench_0 = init_sim bench 1 0"

definition bench_1 :: "(nat, nat) sim" where
  "bench_1 =
     \<lparr>top_design = 3, generator = 1,
      flips_array = (replicate 16 0)[3 := 32],
      req_valid_cycles = 0, req_fire_cycles = 0,
      rsp_ready_cycles = 1, rsp_fire_cycles = 1,
      errors_injected = 1,
      read_with_errors = (replicate 9 0)[1 := 1]\<rparr>"

definition bench_2 :: "(nat, nat) sim" where
  "bench_2 =
     \<lparr>top_design = 5, generator = 2,
      flips_array = (replicate 16 0)[3 := 0],
      req_valid_cycles = 1, req_fire_cycles = 1,
      rsp_ready_cycles = 2, rsp_fire_cycles = 1,
      errors_injected = 2,
      read_with_errors = (replicate 9 0)[1 := 1]\<rparr>"

definition bench_3 :: "(nat, nat) sim" where
  "bench_3 =
     \<lparr>top_design = 7, generator = 2,
      flips_array = (replicate 16 0)[3 := 0],
      req_valid_cycles = 1, req_fire_cycles = 1,
      rsp_ready_cycles = 3, rsp_fire_cycles = 2,
      errors_injected = 2,
      read_with_errors = (replicate 9 0)[1 := 1, 0 := 1]\<rparr>"

text \<open>The states of the first two cycles after their injection.\<close>

definition bench_0_hit :: "(nat, nat) sim" where
  "bench_0_hit =
     bench_0\<lparr>generator := 1, flips_array := (replicate 16 0)[3 := 32], errors_injected := 1\<rparr>"

definition bench_1_hit :: "(nat, nat) sim" where
  "bench_1_hit =
     bench_1\<lparr>generator := 2, flips_array := (replicate 16 0)[3 := 96], errors_injected := 2\<rparr>"

text \<open>What the run of three cycles prints.\<close>

definition bench_report :: "line list" where
  "bench_report =
     [(''req_valid_cycles'', 1), (''req_fire_cycles'', 1),
      (''rsp_ready_cycles'', 3), (''rsp_fire_cycles'', 2),
      (''errors_injected'', 2),
      (''read_with_errors[0]'', 1), (''read_with_errors[1]'', 1),
      (''read_with_errors[2]'', 0), (''read_with_errors[3]'', 0),
      (''read_with_errors[4]'', 0)]"

text \<open>
  The states of \<open>bench\<close> after one and two cycles of a run with mean 0, a read and a
  write, and what the run of two cycles prints.
\<close>

definition bench_quiet_1 :: "(nat, nat) sim" where
  "bench_quiet_1 =
     bench_0\<lparr>top_design := 3, rsp_ready_cycles := 1, rsp_fire_cycles := 1,
              read_with_errors := (replicate 9 0)[0 := 1]\<rparr>"

definition bench_quiet_2 :: "(nat, nat) sim" where
  "bench_quiet_2 =
     bench_quiet_1\<lparr>top_design := 5, rsp_ready_cycles := 2,
                    req_valid_cycles := 1, req_fire_cycles := 1\<rparr>"

definition bench_quiet_report :: "line list" where
  "bench_quiet_report =
     [(''req_valid_cycles'', 1), (''req_fire_cycles'', 1),
      (''rsp_ready_cycles'', 2), (''rsp_fire_cycles'', 1),
      (''errors_injected'', 0),
      (''read_with_errors[0]'', 1), (''read_with_errors[1]'', 0),
      (''read_with_errors[2]'', 0), (''read_with_errors[3]'', 0),
      (''read_with_errors[4]'', 0)]"

text \<open>
  \<open>flood\<close>: one cell of 8 bits, all ports low, no state. Every cycle draws as many flips
  as the floor of the mean, and every flip hits bit 0 of cell 0.
\<close>

definition flood :: "(unit, unit) env" where
  "flood =
     \<lparr>depth = 1, data_bits = 8,
      p_clk_set = (\<lambda>v c. c),
      step = (\<lambda>c. c),
      data_bit = (\<lambda>c cell bt. False),
      data_set_bit = (\<lambda>cell bt v c. c),
      p_rsp_ready = (\<lambda>c. False),
      p_rsp_valid = (\<lambda>c. False),
      p_req_valid = (\<lambda>c. False),
      p_req_ready = (\<lambda>c. False),
      p_sram_clk_en = (\<lambda>c. False),
      p_sram_write_en = (\<lambda>c. False),
      p_sram_addr = (\<lambda>c. 0),
      poisson_distribution = (\<lambda>mean g. (of_nat (nat \<lfloor>mean\<rfloor>), g)),
      uniform_int_distribution = (\<lambda>a b g. (0, g)),
      strtod_value = (\<lambda>s. real (unat (strtoull s)))\<rparr>"

text \<open>The states of \<open>flood\<close> before a flip, after one flip and after two.\<close>

definition flood_0 :: "(unit, unit) sim" where
  "flood_0 = init_sim flood () ()"

definition flood_1 :: "(unit, unit) sim" where
  "flood_1 = flood_0\<lparr>flips_array := [1], errors_injected := 1\<rparr>"

definition flood_2 :: "(unit, unit) sim" where
  "flood_2 = flood_0\<lparr>flips_array := [0], errors_injected := 2\<rparr>"

text \<open>
  The state of \<open>flood\<close> after one cycle with mean \<open>2 ^ 63\<close>, and what a run of that one
  cycle prints.
\<close>

definition flood_half :: "(unit, unit) sim" where
  "flood_half = flood_0\<lparr>errors_injected := 9223372036854775808\<rparr>"

definition flood_half_report :: "line list" where
  "flood_half_report =
     [(''req_valid_cycles'', 0), (''req_fire_cycles'', 0),
      (''rsp_ready_cycles'', 0), (''rsp_fire_cycles'', 0),
      (''errors_injected'', - 9223372036854775808),
      (''read_with_errors[0]'', 0), (''read_with_errors[1]'', 0),
      (''read_with_errors[2]'', 0), (''read_with_errors[3]'', 0),
      (''read_with_errors[4]'', 0)]"

text \<open>
  \<open>stall\<close>: one cell of 8 bits, no state. The request is valid in every cycle and never
  taken; the SRAM is never enabled and no flip is ever drawn. \<open>stall_report\<close> is what a
  run of \<open>2 ^ 63\<close> cycles prints.
\<close>

definition stall :: "(unit, unit) env" where
  "stall =
     \<lparr>depth = 1, data_bits = 8,
      p_clk_set = (\<lambda>v c. c),
      step = (\<lambda>c. c),
      data_bit = (\<lambda>c cell bt. False),
      data_set_bit = (\<lambda>cell bt v c. c),
      p_rsp_ready = (\<lambda>c. False),
      p_rsp_valid = (\<lambda>c. False),
      p_req_valid = (\<lambda>c. True),
      p_req_ready = (\<lambda>c. False),
      p_sram_clk_en = (\<lambda>c. False),
      p_sram_write_en = (\<lambda>c. False),
      p_sram_addr = (\<lambda>c. 0),
      poisson_distribution = (\<lambda>mean g. (0, g)),
      uniform_int_distribution = (\<lambda>a b g. (0, g)),
      strtod_value = (\<lambda>s. real (unat (strtoull s)))\<rparr>"

definition stall_report :: "line list" where
  "stall_report =
     [(''req_valid_cycles'', - 9223372036854775808), (''req_fire_cycles'', 0),
      (''rsp_ready_cycles'', 0), (''rsp_fire_cycles'', 0),
      (''errors_injected'', 0),
      (''read_with_errors[0]'', 0), (''read_with_errors[1]'', 0),
      (''read_with_errors[2]'', 0), (''read_with_errors[3]'', 0),
      (''read_with_errors[4]'', 0)]"

section \<open>Properties of the shadow\<close>

declare inject_loop.simps [simp del] main_loop.simps [simp del] cycle_starts.simps [simp del]

lemma popcount_card: "popcount w = card {i. bit w i}"
proof -
  have "popcount w = card {i. i < 64 \<and> bit w i}"
    by (simp add: popcount_def length_filter_conv_card cong: conj_cong)
  also have "{i. i < 64 \<and> bit w i} = {i. bit w i}"
    by (auto dest: bit_imp_le_length)
  finally show ?thesis .
qed

lemma popcount_zero: "popcount 0 = 0"
  by (simp add: popcount_card)

lemma bit_toggle:
  fixes w :: size_t
  assumes "b < 64"
  shows "bit (w XOR push_bit b 1) n = (if n = b then \<not> bit w n else bit w n)"
  using assms
  by (auto simp add: bit_xor_iff bit_push_bit_iff bit_exp_iff bit_1_iff dest: bit_imp_le_length)

lemma popcount_toggle:
  assumes "b < 64"
  shows "popcount (w XOR push_bit b 1) = (if bit w b then popcount w - 1 else popcount w + 1)"
proof -
  have eq: "{i. bit (w XOR push_bit b 1) i} =
              (if bit w b then {i. bit w i} - {b} else insert b {i. bit w i})"
    using assms by (auto simp only: bit_toggle split: if_splits)
  show ?thesis
    by (simp only: popcount_card eq) simp
qed

lemma popcount_pos: "bit w b \<Longrightarrow> 0 < popcount w"
  unfolding popcount_card by (metis card_gt_0_iff empty_iff finite_bit_word mem_Collect_eq)

lemma flip_Inr_iff:
  "flip fa cell bt = Inr fa' \<longleftrightarrow>
     unat bt < 64 \<and> unat cell < length fa \<and>
     fa' = fa[unat cell := (fa ! unat cell) XOR push_bit (unat bt) 1]"
  by (auto simp add: flip_def)

lemma clear_Inr_iff:
  "clear fa cell = Inr fa' \<longleftrightarrow> unat cell < length fa \<and> fa' = fa[unat cell := 0]"
  by (auto simp add: clear_def)

lemma count_read_Inr_iff:
  "count_read fa rwe a = Inr rwe' \<longleftrightarrow>
     unat a < length fa \<and> popcount (fa ! unat a) < length rwe \<and>
     rwe' = rwe[popcount (fa ! unat a) := rwe ! popcount (fa ! unat a) + 1]"
  by (auto simp add: count_read_def Let_def)

subsection \<open>What each part of a cycle leaves unchanged\<close>

lemma inject_one_Inr:
  assumes "inject_one E s = Inr s'"
  shows "errors_injected s' = errors_injected s + 1"
    and "req_valid_cycles s' = req_valid_cycles s"
    and "req_fire_cycles s' = req_fire_cycles s"
    and "rsp_ready_cycles s' = rsp_ready_cycles s"
    and "rsp_fire_cycles s' = rsp_fire_cycles s"
    and "read_with_errors s' = read_with_errors s"
    and "length (flips_array s') = length (flips_array s)"
  using assms
  by (auto simp add: inject_one_def Let_def flip_def split: prod.splits sum.splits if_splits)

lemma inject_loop_Inr:
  "inject_loop E flips s = Inr s' \<Longrightarrow>
     errors_injected s' = errors_injected s + flips
     \<and> req_valid_cycles s' = req_valid_cycles s
     \<and> req_fire_cycles s' = req_fire_cycles s
     \<and> rsp_ready_cycles s' = rsp_ready_cycles s
     \<and> rsp_fire_cycles s' = rsp_fire_cycles s
     \<and> read_with_errors s' = read_with_errors s
     \<and> length (flips_array s') = length (flips_array s)"
proof (induction E flips s rule: inject_loop.induct)
  case (1 E flips s)
  show ?case
  proof (cases "flips = 0")
    case True
    with "1.prems" show ?thesis
      by (simp add: inject_loop.simps)
  next
    case False
    with "1.prems" obtain s1 where one: "inject_one E s = Inr s1"
      and rest: "inject_loop E (flips - 1) s1 = Inr s'"
      by (auto simp add: inject_loop.simps [of E flips s] split: sum.splits)
    from "1.IH" [OF False one rest] inject_one_Inr [OF one] show ?thesis
      by simp
  qed
qed

lemma inject_flips_Inr:
  assumes "inject_flips E lambda s = Inr s'"
  shows "errors_injected s' = errors_injected s + drawn_flips E lambda s"
    and "req_valid_cycles s' = req_valid_cycles s"
    and "req_fire_cycles s' = req_fire_cycles s"
    and "rsp_ready_cycles s' = rsp_ready_cycles s"
    and "rsp_fire_cycles s' = rsp_fire_cycles s"
    and "read_with_errors s' = read_with_errors s"
    and "length (flips_array s') = length (flips_array s)"
  using assms
  by (auto simp add: inject_flips_def drawn_flips_def split: prod.splits dest!: inject_loop_Inr)

lemma count_handshakes_same:
  "top_design (count_handshakes E s) = top_design s"
  "generator (count_handshakes E s) = generator s"
  "flips_array (count_handshakes E s) = flips_array s"
  "errors_injected (count_handshakes E s) = errors_injected s"
  "read_with_errors (count_handshakes E s) = read_with_errors s"
  by (simp_all add: count_handshakes_def count_req_def count_rsp_fire_def count_rsp_ready_def Let_def)

lemma observe_sram_Inr:
  assumes "observe_sram E s = Inr s'"
  shows "top_design s' = top_design s"
    and "generator s' = generator s"
    and "errors_injected s' = errors_injected s"
    and "req_valid_cycles s' = req_valid_cycles s"
    and "req_fire_cycles s' = req_fire_cycles s"
    and "rsp_ready_cycles s' = rsp_ready_cycles s"
    and "rsp_fire_cycles s' = rsp_fire_cycles s"
    and "length (flips_array s') = length (flips_array s)"
    and "length (read_with_errors s') = length (read_with_errors s)"
  using assms
  by (auto simp add: observe_sram_def Let_def clear_Inr_iff count_read_Inr_iff
      split: sum.splits if_splits)

lemma observe_sram_read:
  assumes "observe_sram E s = Inr s'" and "read_cycle E (top_design s)"
  shows "s' = s\<lparr>read_with_errors :=
                  (read_with_errors s)[popcount (flips_array s ! unat (p_sram_addr E (top_design s))) :=
                     read_with_errors s ! popcount (flips_array s ! unat (p_sram_addr E (top_design s))) + 1]\<rparr>"
    and "unat (p_sram_addr E (top_design s)) < length (flips_array s)"
    and "popcount (flips_array s ! unat (p_sram_addr E (top_design s))) < length (read_with_errors s)"
  using assms
  by (auto simp add: observe_sram_def read_cycle_def Let_def count_read_Inr_iff split: sum.splits)

lemma observe_sram_write:
  assumes "observe_sram E s = Inr s'" and "write_cycle E (top_design s)"
  shows "s' = s\<lparr>flips_array := (flips_array s)[unat (p_sram_addr E (top_design s)) := 0]\<rparr>"
    and "unat (p_sram_addr E (top_design s)) < length (flips_array s)"
  using assms
  by (auto simp add: observe_sram_def write_cycle_def Let_def clear_Inr_iff split: sum.splits)

lemma observe_sram_idle:
  assumes "\<not> p_sram_clk_en E (top_design s)"
  shows "observe_sram E s = Inr s"
  using assms by (simp add: observe_sram_def)

lemma cycle_Inr:
  assumes "cycle E lambda s = Inr s'"
  obtains s1 s2 where "inject_flips E lambda s = Inr s1"
    and "observe_sram E (count_handshakes E s1) = Inr s2"
    and "s' = s2\<lparr>top_design := clk E (top_design s2)\<rparr>"
  using assms by (auto simp add: cycle_def split: sum.splits)

lemma cycle_errors_injected:
  assumes "cycle E lambda s = Inr s'"
  shows "errors_injected s' = errors_injected s + drawn_flips E lambda s"
proof -
  from assms obtain s1 s2 where inj: "inject_flips E lambda s = Inr s1"
    and obs: "observe_sram E (count_handshakes E s1) = Inr s2"
    and s': "s' = s2\<lparr>top_design := clk E (top_design s2)\<rparr>"
    by (rule cycle_Inr)
  show ?thesis
    by (simp add: s' observe_sram_Inr(3) [OF obs] count_handshakes_same inject_flips_Inr(1) [OF inj])
qed

subsection \<open>The loop\<close>

lemma main_loop_step:
  assumes "clk_cycle < total_cycles"
  shows "main_loop E lambda total_cycles clk_cycle s =
           (case cycle E lambda s of
              Inl f \<Rightarrow> Inl f
            | Inr s' \<Rightarrow> main_loop E lambda total_cycles (clk_cycle + 1) s')"
    and "cycle_starts E lambda total_cycles clk_cycle s =
           s # (case cycle E lambda s of
                  Inl f \<Rightarrow> []
                | Inr s' \<Rightarrow> cycle_starts E lambda total_cycles (clk_cycle + 1) s')"
  using assms
  by (simp_all add: main_loop.simps [of E lambda total_cycles clk_cycle s]
      cycle_starts.simps [of E lambda total_cycles clk_cycle s])

lemma main_loop_done:
  assumes "\<not> clk_cycle < total_cycles"
  shows "main_loop E lambda total_cycles clk_cycle s = Inr s"
    and "cycle_starts E lambda total_cycles clk_cycle s = []"
  using assms
  by (simp_all add: main_loop.simps [of E lambda total_cycles clk_cycle s]
      cycle_starts.simps [of E lambda total_cycles clk_cycle s])

lemma unat_next_cycle:
  fixes clk_cycle total_cycles :: size_t
  assumes "clk_cycle < total_cycles"
  shows "unat (clk_cycle + 1) = Suc (unat clk_cycle)" and "unat clk_cycle < unat total_cycles"
  using assms by unat_arith+

lemma main_loop_errors_injected:
  "main_loop E lambda total_cycles clk_cycle s = Inr s' \<Longrightarrow>
     errors_injected s' =
       errors_injected s
       + sum_list (map (drawn_flips E lambda) (cycle_starts E lambda total_cycles clk_cycle s))"
proof (induction E lambda total_cycles clk_cycle s rule: main_loop.induct)
  case (1 E lambda total_cycles clk_cycle s)
  show ?case
  proof (cases "clk_cycle < total_cycles")
    case False
    with "1.prems" show ?thesis
      by (simp add: main_loop_done)
  next
    case True
    with "1.prems" obtain s1 where cyc: "cycle E lambda s = Inr s1"
      and rest: "main_loop E lambda total_cycles (clk_cycle + 1) s1 = Inr s'"
      by (auto simp add: main_loop_step split: sum.splits)
    from "1.IH" [OF True cyc rest] cycle_errors_injected [OF cyc] show ?thesis
      by (simp add: main_loop_step(2) [OF True] cyc add.assoc)
  qed
qed

lemma length_cycle_starts:
  "main_loop E lambda total_cycles clk_cycle s = Inr s' \<Longrightarrow>
     length (cycle_starts E lambda total_cycles clk_cycle s) = unat total_cycles - unat clk_cycle"
proof (induction E lambda total_cycles clk_cycle s rule: main_loop.induct)
  case (1 E lambda total_cycles clk_cycle s)
  show ?case
  proof (cases "clk_cycle < total_cycles")
    case False
    with "1.prems" show ?thesis
      by (simp add: main_loop_done word_less_nat_alt)
  next
    case True
    with "1.prems" obtain s1 where cyc: "cycle E lambda s = Inr s1"
      and rest: "main_loop E lambda total_cycles (clk_cycle + 1) s1 = Inr s'"
      by (auto simp add: main_loop_step split: sum.splits)
    from "1.IH" [OF True cyc rest] unat_next_cycle [OF True] show ?thesis
      by (simp add: main_loop_step(2) [OF True] cyc)
  qed
qed

subsection \<open>The handshake counters\<close>

lemma unat_incr:
  fixes v :: size_t
  assumes "unat v \<le> k" and "k < 2 ^ 64 - 1"
  shows "unat (v + 1) = Suc (unat v)"
proof -
  have "unat v + unat (1 :: size_t) < 2 ^ LENGTH(64)"
    using assms by simp
  then have "unat (v + 1) = unat v + unat (1 :: size_t)"
    by (simp only: unat_add_lem)
  then show ?thesis by simp
qed

lemma counter_next:
  fixes f v :: size_t
  assumes "f \<le> v" and "unat v \<le> k" and "k < 2 ^ 64 - 1"
  shows "f \<le> v + 1" and "f + 1 \<le> v + 1" and "unat (v + 1) \<le> Suc k"
proof -
  have v: "unat (v + 1) = Suc (unat v)"
    using assms(2,3) by (rule unat_incr)
  have fv: "unat f \<le> unat v"
    using assms(1) by (simp add: word_le_nat_alt)
  then have f: "unat (f + 1) = Suc (unat f)"
    using assms(2,3) by (intro unat_incr [where k = k]) simp_all
  show "f \<le> v + 1" using fv by (simp add: word_le_nat_alt v)
  show "f + 1 \<le> v + 1" using fv by (simp add: word_le_nat_alt v f)
  show "unat (v + 1) \<le> Suc k" using assms(2) by (simp add: v)
qed


lemma handshake_points_ordered:
  assumes "counted_within k s" and "k < 2 ^ 64 - 1"
  shows "\<forall>p \<in> set (handshake_points E s). handshakes_ordered p"
  using assms
  by (auto simp add: handshake_points_def counted_within_def handshakes_ordered_def Let_def
      count_req_def count_rsp_fire_def count_rsp_ready_def counter_next(1,2))

lemma count_handshakes_within:
  assumes "counted_within k s" and "k < 2 ^ 64 - 1"
  shows "counted_within (Suc k) (count_handshakes E s)"
  using assms
  by (auto simp add: counted_within_def handshakes_ordered_def Let_def count_handshakes_def
      count_req_def count_rsp_fire_def count_rsp_ready_def counter_next)

lemma count_handshakes_fire_with_valid:
  "fire_with_valid s (count_handshakes E s)"
  by (simp add: fire_with_valid_def Let_def count_handshakes_def
      count_req_def count_rsp_fire_def count_rsp_ready_def)

lemma same_counters_within:
  assumes "req_valid_cycles s' = req_valid_cycles s" and "req_fire_cycles s' = req_fire_cycles s"
    and "rsp_ready_cycles s' = rsp_ready_cycles s" and "rsp_fire_cycles s' = rsp_fire_cycles s"
  shows "counted_within k s' = counted_within k s"
    and "fire_with_valid s' t = fire_with_valid s t"
    and "fire_with_valid t s' = fire_with_valid t s"
  using assms by (simp_all add: counted_within_def handshakes_ordered_def fire_with_valid_def)

lemma cycle_handshakes:
  assumes cyc: "cycle E lambda s = Inr s'" and within: "counted_within k s" and k: "k < 2 ^ 64 - 1"
  shows "counted_within (Suc k) s'"
    and "fire_with_valid s s'"
    and "\<forall>p \<in> set (cycle_points E lambda s). handshakes_ordered p"
proof -
  from cyc obtain s1 s2 where inj: "inject_flips E lambda s = Inr s1"
    and obs: "observe_sram E (count_handshakes E s1) = Inr s2"
    and s': "s' = s2\<lparr>top_design := clk E (top_design s2)\<rparr>"
    by (rule cycle_Inr)
  note inj_same = inject_flips_Inr(2-5) [OF inj]
  note obs_same = observe_sram_Inr(4-7) [OF obs]
  have w1: "counted_within k s1"
    using within by (simp add: same_counters_within(1) [OF inj_same])
  have "counted_within (Suc k) (count_handshakes E s1)"
    using w1 k by (rule count_handshakes_within)
  then have "counted_within (Suc k) s2"
    by (simp add: same_counters_within(1) [OF obs_same])
  then show "counted_within (Suc k) s'"
    by (simp add: s' counted_within_def handshakes_ordered_def)
  have "fire_with_valid s1 (count_handshakes E s1)"
    by (rule count_handshakes_fire_with_valid)
  then have "fire_with_valid s s2"
    by (simp add: same_counters_within(2) [OF inj_same] same_counters_within(3) [OF obs_same])
  then show "fire_with_valid s s'"
    by (simp add: s' fire_with_valid_def)
  show "\<forall>p \<in> set (cycle_points E lambda s). handshakes_ordered p"
    using handshake_points_ordered [OF w1 k] by (simp add: cycle_points_def inj)
qed

lemma main_loop_handshakes:
  "main_loop E lambda total_cycles clk_cycle s = Inr s' \<Longrightarrow>
   counted_within (unat clk_cycle) s \<Longrightarrow>
     handshakes_ordered s'
     \<and> (\<forall>t \<in> set (cycle_starts E lambda total_cycles clk_cycle s).
           handshakes_ordered t
           \<and> (\<forall>p \<in> set (cycle_points E lambda t). handshakes_ordered p)
           \<and> (\<forall>t'. cycle E lambda t = Inr t' \<longrightarrow> fire_with_valid t t'))"
proof (induction E lambda total_cycles clk_cycle s rule: main_loop.induct)
  case (1 E lambda total_cycles clk_cycle s)
  show ?case
  proof (cases "clk_cycle < total_cycles")
    case False
    with "1.prems" show ?thesis
      by (simp add: main_loop_done counted_within_def)
  next
    case True
    with "1.prems" obtain s1 where cyc: "cycle E lambda s = Inr s1"
      and rest: "main_loop E lambda total_cycles (clk_cycle + 1) s1 = Inr s'"
      by (auto simp add: main_loop_step split: sum.splits)
    have "unat total_cycles < 2 ^ 64"
      using unsigned_less [of total_cycles, where 'a = nat] by simp
    with unat_next_cycle(2) [OF True] have k: "unat clk_cycle < 2 ^ 64 - 1"
      by simp
    note here = cycle_handshakes [OF cyc "1.prems"(2) k]
    from here(1) have "counted_within (unat (clk_cycle + 1)) s1"
      by (simp add: unat_next_cycle(1) [OF True])
    from "1.IH" [OF True cyc rest this] here(2,3) "1.prems"(2) show ?thesis
      by (simp add: main_loop_step(2) [OF True] cyc counted_within_def)
  qed
qed

lemma main_loop_counted:
  "main_loop E lambda total_cycles clk_cycle s = Inr s' \<Longrightarrow>
   counted_within (unat clk_cycle) s \<Longrightarrow>
     counted_within (max (unat clk_cycle) (unat total_cycles)) s'"
proof (induction E lambda total_cycles clk_cycle s rule: main_loop.induct)
  case (1 E lambda total_cycles clk_cycle s)
  show ?case
  proof (cases "clk_cycle < total_cycles")
    case False
    then have "unat total_cycles \<le> unat clk_cycle"
      by (simp add: word_less_nat_alt)
    with False "1.prems" show ?thesis
      by (simp add: main_loop_done max_absorb1)
  next
    case True
    with "1.prems" obtain s1 where cyc: "cycle E lambda s = Inr s1"
      and rest: "main_loop E lambda total_cycles (clk_cycle + 1) s1 = Inr s'"
      by (auto simp add: main_loop_step split: sum.splits)
    have "unat total_cycles < 2 ^ 64"
      using unsigned_less [of total_cycles, where 'a = nat] by simp
    with unat_next_cycle(2) [OF True] have k: "unat clk_cycle < 2 ^ 64 - 1"
      by simp
    from cycle_handshakes(1) [OF cyc "1.prems"(2) k]
    have "counted_within (unat (clk_cycle + 1)) s1"
      by (simp add: unat_next_cycle(1) [OF True])
    from "1.IH" [OF True cyc rest this] unat_next_cycle [OF True] show ?thesis
      by (simp add: max_def)
  qed
qed

subsection \<open>A run that stays inside its arrays returns\<close>

lemma popcount_le:
  assumes "\<forall>i. bit w i \<longrightarrow> i < n"
  shows "popcount w \<le> n"
proof -
  have "{i. bit w i} \<subseteq> {..<n}"
    using assms by auto
  then have "card {i. bit w i} \<le> card {..<n}"
    by (intro card_mono) simp_all
  then show ?thesis
    by (simp add: popcount_card)
qed

lemma well_formed_bits:
  assumes "well_formed E"
  shows "unat (num_memory_bits E) \<le> 64" and "4 \<le> unat (num_memory_bits E)"
    and "unat (num_memory_bits E + 1) = unat (num_memory_bits E) + 1"
proof -
  from assms have le: "num_memory_bits E \<le> 64" and ge: "4 \<le> num_memory_bits E"
    by (simp_all add: well_formed_def)
  from le show a: "unat (num_memory_bits E) \<le> 64"
    by (simp add: word_le_nat_alt)
  from ge show "4 \<le> unat (num_memory_bits E)"
    by (simp add: word_le_nat_alt)
  have "64 < (2 :: nat) ^ 64 - 1" by simp
  with a have "unat (num_memory_bits E + 1) = Suc (unat (num_memory_bits E))"
    by (rule unat_incr)
  then show "unat (num_memory_bits E + 1) = unat (num_memory_bits E) + 1"
    by simp
qed

lemma init_sim_arrays_ok:
  assumes "well_formed E"
  shows "arrays_ok E (init_sim E c g)"
  using well_formed_bits(3) [OF assms] by (simp add: arrays_ok_def init_sim_def)

lemma inject_one_returns:
  assumes wf: "well_formed E" and ok: "arrays_ok E s"
  shows "\<exists>s'. inject_one E s = Inr s' \<and> arrays_ok E s'"
proof -
  obtain cell g1 where cell: "memory_cell E (generator s) = (cell, g1)"
    by (cases "memory_cell E (generator s)")
  obtain bt g2 where bt: "memory_bit E g1 = (bt, g2)"
    by (cases "memory_bit E g1")
  from wf cell have c: "cell < num_memory_cells E"
    by (auto simp add: well_formed_def dest: spec [where x = "generator s"])
  from wf bt have b: "bt < num_memory_bits E"
    by (auto simp add: well_formed_def dest: spec [where x = g1])
  from b have bn: "unat bt < unat (num_memory_bits E)"
    by (simp add: word_less_nat_alt)
  with well_formed_bits(1) [OF wf] have b64: "unat bt < 64"
    by simp
  from c ok have cn: "unat cell < length (flips_array s)"
    by (simp add: word_less_nat_alt arrays_ok_def)
  let ?fa = "(flips_array s)[unat cell := (flips_array s ! unat cell) XOR push_bit (unat bt) 1]"
  have fl: "flip (flips_array s) cell bt = Inr ?fa"
    using b64 cn by (simp add: flip_Inr_iff)
  have bits: "\<forall>w \<in> set ?fa. \<forall>i. bit w i \<longrightarrow> i < unat (num_memory_bits E)"
  proof (intro ballI allI impI)
    fix w i assume w: "w \<in> set ?fa" and i: "bit w i"
    from w have "w = (flips_array s ! unat cell) XOR push_bit (unat bt) 1 \<or> w \<in> set (flips_array s)"
      by (auto dest: set_update_subset_insert [THEN subsetD])
    then show "i < unat (num_memory_bits E)"
    proof
      assume "w = (flips_array s ! unat cell) XOR push_bit (unat bt) 1"
      with i b64 have "i = unat bt \<or> bit (flips_array s ! unat cell) i"
        by (simp only: bit_toggle split: if_splits) simp_all
      with bn ok cn show ?thesis
        by (auto simp add: arrays_ok_def)
    next
      assume "w \<in> set (flips_array s)"
      with i ok show ?thesis
        by (auto simp add: arrays_ok_def)
    qed
  qed
  show ?thesis
    using ok bits c b
    by (simp add: inject_one_def cell bt fl Let_def arrays_ok_def del: push_bit_of_1)
qed

lemma inject_loop_returns:
  "well_formed E \<Longrightarrow> arrays_ok E s \<Longrightarrow> \<exists>s'. inject_loop E flips s = Inr s' \<and> arrays_ok E s'"
proof (induction E flips s rule: inject_loop.induct)
  case (1 E flips s)
  show ?case
  proof (cases "flips = 0")
    case True
    with "1.prems" show ?thesis
      by (simp add: inject_loop.simps)
  next
    case False
    from inject_one_returns [OF "1.prems"] obtain s1
      where one: "inject_one E s = Inr s1" and ok1: "arrays_ok E s1"
      by blast
    from "1.IH" [OF False one "1.prems"(1) ok1] show ?thesis
      using False by (simp add: inject_loop.simps [of E flips s] one)
  qed
qed

lemma inject_flips_returns:
  assumes "well_formed E" and "arrays_ok E s"
  shows "\<exists>s'. inject_flips E lambda s = Inr s' \<and> arrays_ok E s'"
proof -
  obtain flips g where d: "num_flips E lambda (generator s) = (flips, g)"
    by (cases "num_flips E lambda (generator s)")
  have "arrays_ok E (s\<lparr>generator := g\<rparr>)"
    using assms(2) by (simp add: arrays_ok_def)
  from inject_loop_returns [OF assms(1) this] show ?thesis
    by (simp add: inject_flips_def d)
qed

lemma arrays_ok_count_handshakes:
  "arrays_ok E (count_handshakes E s) = arrays_ok E s"
  by (simp add: arrays_ok_def count_handshakes_same)

lemma observe_sram_returns:
  assumes wf: "well_formed E" and ok: "arrays_ok E s"
  shows "\<exists>s'. observe_sram E s = Inr s' \<and> arrays_ok E s'"
proof (cases "p_sram_clk_en E (top_design s)")
  case False
  with ok show ?thesis
    by (simp add: observe_sram_idle)
next
  case True
  let ?a = "unat (p_sram_addr E (top_design s))"
  from wf True ok have a: "?a < length (flips_array s)"
    by (simp add: well_formed_def arrays_ok_def word_less_nat_alt)
  then have "flips_array s ! ?a \<in> set (flips_array s)"
    by simp
  with ok have "popcount (flips_array s ! ?a) \<le> unat (num_memory_bits E)"
    by (intro popcount_le) (simp add: arrays_ok_def)
  with ok have p: "popcount (flips_array s ! ?a) < length (read_with_errors s)"
    by (simp add: arrays_ok_def)
  show ?thesis
  proof (cases "p_sram_write_en E (top_design s)")
    case False
    with True a p ok show ?thesis
      by (simp add: observe_sram_def count_read_def Let_def arrays_ok_def)
  next
    case wr: True
    have "\<forall>w \<in> set ((flips_array s)[?a := 0]). \<forall>i. bit w i \<longrightarrow> i < unat (num_memory_bits E)"
      using ok by (auto simp add: arrays_ok_def dest!: set_update_subset_insert [THEN subsetD])
    with True wr a ok show ?thesis
      by (simp add: observe_sram_def clear_def Let_def arrays_ok_def)
  qed
qed

lemma cycle_returns:
  assumes wf: "well_formed E" and ok: "arrays_ok E s"
  shows "\<exists>s'. cycle E lambda s = Inr s' \<and> arrays_ok E s'"
proof -
  from inject_flips_returns [OF wf ok] obtain s1
    where inj: "inject_flips E lambda s = Inr s1" and ok1: "arrays_ok E s1"
    by blast
  from ok1 have "arrays_ok E (count_handshakes E s1)"
    by (simp add: arrays_ok_count_handshakes)
  from observe_sram_returns [OF wf this] obtain s2
    where obs: "observe_sram E (count_handshakes E s1) = Inr s2" and ok2: "arrays_ok E s2"
    by blast
  from ok2 have "arrays_ok E (s2\<lparr>top_design := clk E (top_design s2)\<rparr>)"
    by (simp add: arrays_ok_def)
  then show ?thesis
    by (simp add: cycle_def inj obs)
qed

lemma main_loop_returns:
  "well_formed E \<Longrightarrow> arrays_ok E s \<Longrightarrow>
     \<exists>s'. main_loop E lambda total_cycles clk_cycle s = Inr s' \<and> arrays_ok E s'"
proof (induction E lambda total_cycles clk_cycle s rule: main_loop.induct)
  case (1 E lambda total_cycles clk_cycle s)
  show ?case
  proof (cases "clk_cycle < total_cycles")
    case False
    with "1.prems" show ?thesis
      by (simp add: main_loop_done)
  next
    case True
    from cycle_returns [OF "1.prems"] obtain s1
      where cyc: "cycle E lambda s = Inr s1" and ok1: "arrays_ok E s1"
      by blast
    from "1.IH" [OF True cyc "1.prems"(1) ok1] show ?thesis
      by (simp add: main_loop_step(1) [OF True] cyc)
  qed
qed

subsection \<open>Cycles without flips\<close>

lemma no_flips_drawn:
  assumes "\<forall>g. fst (poisson_distribution E 0 g) = 0"
  shows "drawn_flips E 0 s = 0"
    and "inject_flips E 0 s = Inr (s\<lparr>generator := snd (num_flips E 0 (generator s))\<rparr>)"
  using assms
  by (auto simp add: drawn_flips_def inject_flips_def num_flips_def inject_loop.simps
      split: prod.splits dest: spec [where x = "generator s"])

lemma cycle_no_flips:
  assumes p0: "\<forall>g. fst (poisson_distribution E 0 g) = 0"
    and cyc: "cycle E 0 s = Inr s'"
    and zero: "set (flips_array s) \<subseteq> {0}"
  shows "set (flips_array s') \<subseteq> {0}"
    and "errors_injected s' = errors_injected s"
    and "read_with_errors s' ! 0 = read_with_errors s ! 0 + (if read_observed E 0 s then 1 else 0)"
    and "length (read_with_errors s') = length (read_with_errors s)"
proof -
  let ?s1 = "s\<lparr>generator := snd (num_flips E 0 (generator s))\<rparr>"
  let ?h = "count_handshakes E ?s1"
  note inj = no_flips_drawn(2) [OF p0, of s]
  from cyc obtain s2 where obs: "observe_sram E ?h = Inr s2"
    and s': "s' = s2\<lparr>top_design := clk E (top_design s2)\<rparr>"
    by (auto simp add: cycle_def inj split: sum.splits)
  have top: "top_design ?h = top_design s" and fa: "flips_array ?h = flips_array s"
    and rwe: "read_with_errors ?h = read_with_errors s"
    and ei: "errors_injected ?h = errors_injected s"
    by (simp_all add: count_handshakes_same)
  have ro: "read_observed E 0 s = read_cycle E (top_design s)"
    by (simp add: read_observed_def inj)
  show "errors_injected s' = errors_injected s"
    by (simp add: s' observe_sram_Inr(3) [OF obs] ei)
  show "length (read_with_errors s') = length (read_with_errors s)"
    by (simp add: s' observe_sram_Inr(9) [OF obs] rwe)
  consider (rd) "read_cycle E (top_design s)" | (wr) "write_cycle E (top_design s)"
    | (idl) "\<not> p_sram_clk_en E (top_design s)"
    by (auto simp add: read_cycle_def write_cycle_def)
  then have "set (flips_array s') \<subseteq> {0}
    \<and> read_with_errors s' ! 0 = read_with_errors s ! 0 + (if read_observed E 0 s then 1 else 0)"
  proof cases
    case rd
    note r = observe_sram_read [OF obs, unfolded top fa rwe, OF rd]
    from r(2) zero have "flips_array s ! unat (p_sram_addr E (top_design s)) = 0"
      by (auto dest: nth_mem)
    with r(1,3) have s2: "s2 = ?h\<lparr>read_with_errors := (read_with_errors s)[0 := read_with_errors s ! 0 + 1]\<rparr>"
      and len: "0 < length (read_with_errors s)"
      by (simp_all add: popcount_zero)
    have a: "set (flips_array s') \<subseteq> {0}"
      using zero by (simp add: s' s2 fa)
    have b: "read_with_errors s' ! 0 = read_with_errors s ! 0 + (if read_observed E 0 s then 1 else 0)"
      using len rd by (simp add: s' s2 ro)
    from a b show ?thesis ..
  next
    case wr
    note w = observe_sram_write [OF obs, unfolded top fa, OF wr]
    from wr have nr: "\<not> read_cycle E (top_design s)"
      by (simp add: read_cycle_def write_cycle_def)
    have a: "set (flips_array s') \<subseteq> {0}"
      using zero set_update_subset_insert [of "flips_array s" _ 0]
      by (auto simp add: s' w(1) fa)
    have b: "read_with_errors s' ! 0 = read_with_errors s ! 0 + (if read_observed E 0 s then 1 else 0)"
      using nr by (simp add: s' w(1) rwe ro)
    from a b show ?thesis ..
  next
    case idl
    then have "observe_sram E ?h = Inr ?h"
      by (intro observe_sram_idle) (simp add: top)
    with obs have s2: "s2 = ?h" by simp
    from idl have nr: "\<not> read_cycle E (top_design s)"
      by (simp add: read_cycle_def)
    have a: "set (flips_array s') \<subseteq> {0}"
      using zero by (simp add: s' s2 fa)
    have b: "read_with_errors s' ! 0 = read_with_errors s ! 0 + (if read_observed E 0 s then 1 else 0)"
      using nr by (simp add: s' s2 rwe ro)
    from a b show ?thesis ..
  qed
  then show "set (flips_array s') \<subseteq> {0}"
    and "read_with_errors s' ! 0 = read_with_errors s ! 0 + (if read_observed E 0 s then 1 else 0)"
    by simp_all
qed

lemma main_loop_no_flips:
  "main_loop E 0 total_cycles clk_cycle s = Inr s' \<Longrightarrow>
   \<forall>g. fst (poisson_distribution E 0 g) = 0 \<Longrightarrow>
   set (flips_array s) \<subseteq> {0} \<Longrightarrow>
     errors_injected s' = errors_injected s
     \<and> length (read_with_errors s') = length (read_with_errors s)
     \<and> read_with_errors s' ! 0 =
         read_with_errors s ! 0
         + of_nat (length (filter (read_observed E 0) (cycle_starts E 0 total_cycles clk_cycle s)))"
proof (induction E "0 :: real" total_cycles clk_cycle s rule: main_loop.induct)
  case (1 E total_cycles clk_cycle s)
  show ?case
  proof (cases "clk_cycle < total_cycles")
    case False
    with "1.prems" show ?thesis
      by (simp add: main_loop_done)
  next
    case True
    with "1.prems" obtain s1 where cyc: "cycle E 0 s = Inr s1"
      and rest: "main_loop E 0 total_cycles (clk_cycle + 1) s1 = Inr s'"
      by (auto simp add: main_loop_step split: sum.splits)
    note here = cycle_no_flips [OF "1.prems"(2) cyc "1.prems"(3)]
    from "1.hyps" [OF True cyc rest "1.prems"(2) here(1)] here(2,3,4) show ?thesis
      by (simp add: main_loop_step(2) [OF True] cyc)
  qed
qed

subsection \<open>What \<^verbatim>\<open>main\<close> prints\<close>

lemma main_Inr:
  assumes "main E c g argv = Inr r" and "3 \<le> length argv"
  obtains s' where
    "main_loop E (strtod E (argv ! 2)) (strtoull (argv ! 1)) 0
       (init_sim E (step E (p_clk_set E False c)) g) = Inr s'"
    and "report s' = Inr (stdout r)"
    and "status r = 0"
    and "top_at_exit r = step E (p_clk_set E False (top_design s'))"
  using assms by (auto simp add: main_def Let_def split: sum.splits)

lemma digit_chars:
  "char_of (48 :: nat) = CHR ''0''" "char_of (49 :: nat) = CHR ''1''"
  "char_of (50 :: nat) = CHR ''2''" "char_of (51 :: nat) = CHR ''3''"
  "char_of (52 :: nat) = CHR ''4''"
  by code_simp+

lemma report_Inr:
  assumes "report s = Inr out"
  shows "map fst out = report_labels"
    and "map_of out ''req_valid_cycles'' = Some (sint (req_valid_cycles s))"
    and "map_of out ''req_fire_cycles'' = Some (sint (req_fire_cycles s))"
    and "map_of out ''rsp_ready_cycles'' = Some (sint (rsp_ready_cycles s))"
    and "map_of out ''rsp_fire_cycles'' = Some (sint (rsp_fire_cycles s))"
    and "map_of out ''errors_injected'' = Some (sint (errors_injected s))"
    and "map_of out ''read_with_errors[0]'' = Some (sint (read_with_errors s ! 0))"
    and "5 \<le> length (read_with_errors s)"
  using assms
  by (auto simp add: report_def report_labels_def bucket_label_def upt_rec digit_chars
      split: if_splits)

lemma main_end:
  assumes "main E c g argv = Inr r" and "3 \<le> length argv" and "run_end E c g argv = Inr s'"
  shows "report s' = Inr (stdout r)"
  using assms by (auto simp add: main_def run_end_def Let_def split: sum.splits)

text \<open>What \<^verbatim>\<open>%zd\<close> shows of a counter below \<open>2 ^ 63\<close>.\<close>

lemma sint_small:
  fixes w :: size_t
  assumes "unat w < 2 ^ 63"
  shows "sint w = int (unat w)"
proof -
  have u: "uint w = int (unat w)"
    by (rule uint_nat)
  from assms have "int (unat w) < int (2 ^ 63)"
    by (simp only: of_nat_less_iff)
  then have "uint w < 2 ^ 63"
    by (simp only: u) simp
  moreover have "- (2 ^ 63) \<le> uint w"
    by (rule order_trans [of _ 0]) simp_all
  ultimately have "signed_take_bit 63 (uint w) = uint w"
    by (rule signed_take_bit_int_eq_self [rotated])
  moreover have "sint w = signed_take_bit 63 (uint w)"
    by (simp add: sint_uint)
  ultimately show ?thesis
    by (simp only: u)
qed

lemma sint_mono_small:
  fixes f v :: size_t
  assumes "f \<le> v" and "unat v < 2 ^ 63"
  shows "sint f \<le> sint v"
proof -
  from assms(1) have le: "unat f \<le> unat v"
    by (simp only: word_le_nat_alt)
  from le assms(2) have "unat f < 2 ^ 63"
    by (rule le_less_trans)
  then have "sint f = int (unat f)"
    by (rule sint_small)
  moreover from assms(2) have "sint v = int (unat v)"
    by (rule sint_small)
  ultimately show ?thesis
    using le by (simp only: of_nat_le_iff)
qed

lemma init_sim_simps:
  "req_valid_cycles (init_sim E c g) = 0" "req_fire_cycles (init_sim E c g) = 0"
  "rsp_ready_cycles (init_sim E c g) = 0" "rsp_fire_cycles (init_sim E c g) = 0"
  "errors_injected (init_sim E c g) = 0"
  "set (flips_array (init_sim E c g)) \<subseteq> {0}"
  "read_with_errors (init_sim E c g) = replicate (unat (num_memory_bits E + 1)) 0"
  by (auto simp add: init_sim_def)

subsection \<open>The test benches evaluated\<close>

lemmas model_defs = num_memory_cells_def num_memory_bits_def num_flips_def memory_cell_def
  memory_bit_def flip_def clear_def clk_def inject_one_def drawn_flips_def inject_flips_def
  count_rsp_ready_def count_rsp_fire_def count_req_def count_handshakes_def count_read_def
  observe_sram_def cycle_def init_sim_def drawn_cell_def drawn_bit_def read_cycle_def
  write_cycle_def

lemma popcount_values: "popcount 32 = 1" "popcount 96 = 2" "popcount 1 = 1"
  by code_simp+

lemma strtoull_values:
  "strtoull ''3'' = 3" "strtoull ''2'' = 2" "strtoull ''1'' = 1" "strtoull ''0'' = 0"
  "strtoull ''x'' = 0"
  "strtoull ''9223372036854775808'' = 9223372036854775808"
  by (simp_all add: strtoull_def skip_sign_def isspace_def isdigit_def)

lemma converts_values:
  "strtod_converts ''1''" "strtod_converts ''0''" "strtod_converts ''9223372036854775808''"
  "\<not> strtod_converts ''x''" "\<not> strtoull_converts ''x''"
  by (simp_all add: strtod_converts_def strtoull_converts_def skip_sign_def isspace_def
      isdigit_def tolower_def)

lemma bench_strtod:
  "strtod bench ''1'' = 1" "strtod bench ''0'' = 0" "strtod bench ''x'' = 0"
  by (simp_all add: strtod_def converts_values strtoull_values bench_def)

lemma bench_well_formed: "well_formed bench"
  by (simp add: well_formed_def bench_def num_memory_bits_def num_memory_cells_def
      memory_cell_def memory_bit_def)

lemma bench_cycles:
  "cycle bench 1 bench_0 = Inr bench_1"
  "cycle bench 1 bench_1 = Inr bench_2"
  "cycle bench 1 bench_2 = Inr bench_3"
  by (simp_all add: model_defs bench_0_def bench_1_def bench_2_def bench_3_def bench_def
      inject_loop.simps popcount_values popcount_zero)

lemma bench_injected:
  "inject_flips bench 1 bench_0 = Inr bench_0_hit"
  "inject_flips bench 1 bench_1 = Inr bench_1_hit"
  "inject_flips bench 1 bench_2 = Inr bench_2"
  "inject_one bench bench_0 = Inr bench_0_hit"
  by (simp_all add: model_defs bench_0_hit_def bench_1_hit_def bench_0_def bench_1_def
      bench_2_def bench_def inject_loop.simps)

lemma bench_loop: "main_loop bench 1 3 0 bench_0 = Inr bench_3"
  by (simp add: main_loop.simps bench_cycles)

lemma bench_starts: "cycle_starts bench 1 3 0 bench_0 = [bench_0, bench_1, bench_2]"
  by (simp add: cycle_starts.simps bench_cycles)

lemma bench_main:
  "main bench 0 0 [''sim'', ''3'', ''1''] = Inr \<lparr>status = 0, stdout = bench_report, top_at_exit = 8\<rparr>"
proof -
  have "step bench (p_clk_set bench False 0) = 1" "step bench (p_clk_set bench False 7) = 8"
    by (simp_all add: bench_def)
  moreover have "report bench_3 = Inr bench_report"
    by (simp add: report_def bench_3_def bench_report_def bucket_label_def digit_chars upt_rec)
  moreover have "top_design bench_3 = 7"
    by (simp add: bench_3_def)
  moreover have "main_loop bench 1 3 0 (init_sim bench (Suc 0) 0) = Inr bench_3"
    using bench_loop by (simp add: bench_0_def)
  ultimately show ?thesis
    by (simp add: main_def bench_strtod strtoull_values)
qed

lemma flood_hits:
  "inject_one flood flood_0 = Inr flood_1" "inject_one flood flood_1 = Inr flood_2"
  by (simp_all add: model_defs flood_0_def flood_1_def flood_2_def flood_def)


section \<open>The claims about the shadow\<close>

text \<open>
  C1, as the specification states it: between two clears of a cell, no injection
  decreases the popcount of its shadow. It fails on \<open>flood\<close>: the shadow starts cleared,
  two injections hit bit 0 of cell 0, and the popcount goes from 0 to 1 and back to 0.
\<close>

theorem popcount_falls_on_second_hit:
  "inject_one flood flood_0 = Inr flood_1 \<and> inject_one flood flood_1 = Inr flood_2
   \<and> popcount (flips_array flood_0 ! 0) = 0
   \<and> popcount (flips_array flood_1 ! 0) = 1
   \<and> popcount (flips_array flood_2 ! 0) = 0
   \<and> \<not> popcount (flips_array flood_1 ! 0) \<le> popcount (flips_array flood_2 ! 0)"
  by (simp add: flood_hits)
    (simp add: flood_0_def flood_1_def flood_2_def init_sim_def popcount_values popcount_zero
      num_memory_cells_def flood_def)

text \<open>
  C1, amended: an injection changes the popcount of the cell it hits by exactly one, up
  when the bit drawn was clear in the shadow and down when it was set, and leaves the
  shadow of every other cell as it was. So the popcount does not decrease as long as no
  bit is hit that is already set.
\<close>

theorem injection_moves_popcount_by_one:
  assumes "inject_one E s = Inr s'"
  shows "(\<not> bit (flips_array s ! unat (drawn_cell E s)) (unat (drawn_bit E s)) \<longrightarrow>
            popcount (flips_array s' ! unat (drawn_cell E s))
              = popcount (flips_array s ! unat (drawn_cell E s)) + 1)
         \<and> (bit (flips_array s ! unat (drawn_cell E s)) (unat (drawn_bit E s)) \<longrightarrow>
            popcount (flips_array s' ! unat (drawn_cell E s)) + 1
              = popcount (flips_array s ! unat (drawn_cell E s)))
         \<and> (\<forall>i. i \<noteq> unat (drawn_cell E s) \<longrightarrow> flips_array s' ! i = flips_array s ! i)"
proof -
  let ?c = "unat (drawn_cell E s)" and ?b = "unat (drawn_bit E s)"
  from assms have fl: "flip (flips_array s) (drawn_cell E s) (drawn_bit E s) = Inr (flips_array s')"
    by (auto simp add: inject_one_def drawn_cell_def drawn_bit_def Let_def
        split: prod.splits sum.splits if_splits)
  then have b: "?b < 64" and c: "?c < length (flips_array s)"
    and fa: "flips_array s' = (flips_array s)[?c := (flips_array s ! ?c) XOR push_bit ?b 1]"
    by (simp_all add: flip_Inr_iff)
  have pc: "popcount (flips_array s' ! ?c) =
              (if bit (flips_array s ! ?c) ?b then popcount (flips_array s ! ?c) - 1
               else popcount (flips_array s ! ?c) + 1)"
    using c by (simp only: fa nth_list_update_eq popcount_toggle [OF b])
  have "bit (flips_array s ! ?c) ?b \<Longrightarrow> 0 < popcount (flips_array s ! ?c)"
    by (rule popcount_pos)
  with pc show ?thesis
    by (auto simp add: fa)
qed

theorem injection_moves_popcount_by_one_witness:
  "inject_one flood flood_0 = Inr flood_1
   \<and> \<not> bit (flips_array flood_0 ! unat (drawn_cell flood flood_0)) (unat (drawn_bit flood flood_0))
   \<and> popcount (flips_array flood_1 ! 0) = popcount (flips_array flood_0 ! 0) + 1
   \<and> inject_one flood flood_1 = Inr flood_2
   \<and> bit (flips_array flood_1 ! unat (drawn_cell flood flood_1)) (unat (drawn_bit flood flood_1))
   \<and> popcount (flips_array flood_2 ! 0) + 1 = popcount (flips_array flood_1 ! 0)"
proof -
  have d: "drawn_cell flood flood_0 = 0" "drawn_bit flood flood_0 = 0"
    "drawn_cell flood flood_1 = 0" "drawn_bit flood flood_1 = 0"
    by (simp_all add: drawn_cell_def drawn_bit_def memory_cell_def memory_bit_def flood_def)
  have f: "flips_array flood_0 = [0]" "flips_array flood_1 = [1]"
    by (simp_all add: flood_0_def flood_1_def init_sim_def num_memory_cells_def flood_def)
  from injection_moves_popcount_by_one [OF flood_hits(1)]
    injection_moves_popcount_by_one [OF flood_hits(2)]
  show ?thesis
    by (simp add: flood_hits d f)
qed

text \<open>
  C5: flipping the same bit of the same cell twice, with nothing in between, gives back
  the shadow there was: the first flip inverts the bit and the second restores it. In
  the loop: two injections in a row that draw the same cell and bit leave
  \<^verbatim>\<open>flips_array\<close> as it was.
\<close>

theorem double_flip_cancels:
  "(flip fa cell bt = Inr fa1 \<longrightarrow>
      flip fa1 cell bt = Inr fa
      \<and> bit (fa1 ! unat cell) (unat bt) = (\<not> bit (fa ! unat cell) (unat bt)))
   \<and> (inject_one E s = Inr s1 \<and> inject_one E s1 = Inr s2
       \<and> drawn_cell E s1 = drawn_cell E s \<and> drawn_bit E s1 = drawn_bit E s \<longrightarrow>
      flips_array s2 = flips_array s)"
proof (intro conjI impI)
  assume fl: "flip fa cell bt = Inr fa1"
  then show "flip fa1 cell bt = Inr fa"
    by (auto simp add: flip_Inr_iff xor.assoc)
  from fl show "bit (fa1 ! unat cell) (unat bt) = (\<not> bit (fa ! unat cell) (unat bt))"
    by (auto simp add: flip_Inr_iff bit_toggle simp del: push_bit_of_1)
next
  assume a: "inject_one E s = Inr s1 \<and> inject_one E s1 = Inr s2
       \<and> drawn_cell E s1 = drawn_cell E s \<and> drawn_bit E s1 = drawn_bit E s"
  then have "flip (flips_array s) (drawn_cell E s) (drawn_bit E s) = Inr (flips_array s1)"
    and "flip (flips_array s1) (drawn_cell E s) (drawn_bit E s) = Inr (flips_array s2)"
    by (auto simp add: inject_one_def drawn_cell_def drawn_bit_def Let_def
        split: prod.splits sum.splits if_splits)
  then show "flips_array s2 = flips_array s"
    by (auto simp add: flip_Inr_iff xor.assoc)
qed

theorem double_flip_cancels_witness:
  "flip [0, 0, 0, 0] 3 5 = Inr [0, 0, 0, 32] \<and> flip [0, 0, 0, 32] 3 5 = Inr [0, 0, 0, 0]
   \<and> bit (32 :: size_t) 5 \<and> \<not> bit (0 :: size_t) 5
   \<and> inject_one flood flood_0 = Inr flood_1 \<and> inject_one flood flood_1 = Inr flood_2
   \<and> drawn_cell flood flood_1 = drawn_cell flood flood_0
   \<and> drawn_bit flood flood_1 = drawn_bit flood flood_0
   \<and> flips_array flood_2 = flips_array flood_0"
proof -
  have fl: "flip [0, 0, 0, 0] 3 5 = Inr [0, 0, 0, 32]"
    by (simp add: flip_def)
  have d: "drawn_cell flood flood_1 = drawn_cell flood flood_0"
    "drawn_bit flood flood_1 = drawn_bit flood flood_0"
    by (simp_all add: drawn_cell_def drawn_bit_def memory_cell_def memory_bit_def flood_def)
  from double_flip_cancels [of "[0, 0, 0, 0]" 3 5 "[0, 0, 0, 32]" flood flood_0 flood_1 flood_2]
  show ?thesis
    by (simp add: fl flood_hits d)
qed

section \<open>The claims about read and write cycles\<close>

lemma one_flip_drawn:
  assumes "drawn_flips E lambda s = 1"
  shows "inject_flips E lambda s
           = inject_one E (s\<lparr>generator := snd (num_flips E lambda (generator s))\<rparr>)"
  using assms
  by (auto simp add: inject_flips_def drawn_flips_def inject_loop.simps [of E 1]
      inject_loop.simps [of E 0] split: prod.splits sum.splits)

lemma cycle_read:
  assumes cyc: "cycle E lambda s = Inr s'" and inj: "inject_flips E lambda s = Inr s1"
    and rd: "read_cycle E (top_design s1)"
  shows "read_with_errors s'
           = (read_with_errors s)
               [popcount (flips_array s1 ! unat (p_sram_addr E (top_design s1))) :=
                  read_with_errors s ! popcount (flips_array s1 ! unat (p_sram_addr E (top_design s1))) + 1]"
    and "popcount (flips_array s1 ! unat (p_sram_addr E (top_design s1))) < length (read_with_errors s)"
    and "flips_array s' = flips_array s1"
proof -
  let ?h = "count_handshakes E s1"
  from cyc inj obtain v where obs: "observe_sram E ?h = Inr v"
    and s': "s' = v\<lparr>top_design := clk E (top_design v)\<rparr>"
    by (auto simp add: cycle_def split: sum.splits)
  from rd have "read_cycle E (top_design ?h)"
    by (simp add: count_handshakes_same)
  note r = observe_sram_read [OF obs this, unfolded count_handshakes_same]
  note same = inject_flips_Inr(6) [OF inj]
  from r(1) show "read_with_errors s'
           = (read_with_errors s)
               [popcount (flips_array s1 ! unat (p_sram_addr E (top_design s1))) :=
                  read_with_errors s ! popcount (flips_array s1 ! unat (p_sram_addr E (top_design s1))) + 1]"
    by (simp add: s' same)
  from r(3) show "popcount (flips_array s1 ! unat (p_sram_addr E (top_design s1))) < length (read_with_errors s)"
    by (simp add: same)
  from r(1) show "flips_array s' = flips_array s1"
    by (simp add: s' count_handshakes_same)
qed

lemma cycle_write:
  assumes cyc: "cycle E lambda s = Inr s'" and inj: "inject_flips E lambda s = Inr s1"
    and wr: "write_cycle E (top_design s1)"
  shows "flips_array s' = (flips_array s1)[unat (p_sram_addr E (top_design s1)) := 0]"
    and "unat (p_sram_addr E (top_design s1)) < length (flips_array s1)"
    and "read_with_errors s' = read_with_errors s"
proof -
  let ?h = "count_handshakes E s1"
  from cyc inj obtain v where obs: "observe_sram E ?h = Inr v"
    and s': "s' = v\<lparr>top_design := clk E (top_design v)\<rparr>"
    by (auto simp add: cycle_def split: sum.splits)
  from wr have "write_cycle E (top_design ?h)"
    by (simp add: count_handshakes_same)
  note w = observe_sram_write [OF obs this, unfolded count_handshakes_same]
  from w(1) show "flips_array s' = (flips_array s1)[unat (p_sram_addr E (top_design s1)) := 0]"
    by (simp add: s' count_handshakes_same)
  from w(2) show "unat (p_sram_addr E (top_design s1)) < length (flips_array s1)" .
  from w(1) show "read_with_errors s' = read_with_errors s"
    by (simp add: s' count_handshakes_same inject_flips_Inr(6) [OF inj])
qed

text \<open>
  C2: take any cycle of the loop and the state \<open>s1\<close> it reaches after its injections, in
  which the SRAM signals are sampled. When they are those of a read cycle, the cycle
  adds one to the entry of the histogram at the popcount of the shadow of the sampled
  address, and leaves the shadow as the injections made it; when they are those of a
  write cycle, the cycle sets the shadow of the sampled address to zero and leaves the
  histogram as it was. In particular, a cycle that draws one flip, at bit 5 of cell 3
  whose shadow was zero, and then reads cell 3, adds one to entry 1 of the histogram.
\<close>

theorem read_counts_write_clears:
  "(cycle E lambda s = Inr s' \<and> inject_flips E lambda s = Inr s1
    \<and> read_cycle E (top_design s1) \<longrightarrow>
      read_with_errors s'
        = (read_with_errors s)
            [popcount (flips_array s1 ! unat (p_sram_addr E (top_design s1))) :=
               read_with_errors s ! popcount (flips_array s1 ! unat (p_sram_addr E (top_design s1))) + 1]
      \<and> popcount (flips_array s1 ! unat (p_sram_addr E (top_design s1))) < length (read_with_errors s)
      \<and> flips_array s' = flips_array s1)
   \<and> (cycle E lambda s = Inr s' \<and> inject_flips E lambda s = Inr s1
       \<and> write_cycle E (top_design s1) \<longrightarrow>
      flips_array s' = (flips_array s1)[unat (p_sram_addr E (top_design s1)) := 0]
      \<and> unat (p_sram_addr E (top_design s1)) < length (flips_array s1)
      \<and> read_with_errors s' = read_with_errors s)
   \<and> (cycle E lambda s = Inr s' \<and> inject_flips E lambda s = Inr s1
       \<and> drawn_flips E lambda s = 1
       \<and> drawn_cell E (s\<lparr>generator := snd (num_flips E lambda (generator s))\<rparr>) = 3
       \<and> drawn_bit E (s\<lparr>generator := snd (num_flips E lambda (generator s))\<rparr>) = 5
       \<and> flips_array s ! 3 = 0
       \<and> read_cycle E (top_design s1) \<and> p_sram_addr E (top_design s1) = 3 \<longrightarrow>
      flips_array s1 ! 3 = 32
      \<and> read_with_errors s' = (read_with_errors s)[1 := read_with_errors s ! 1 + 1]
      \<and> 1 < length (read_with_errors s))"
proof (intro conjI impI)
  assume a: "cycle E lambda s = Inr s' \<and> inject_flips E lambda s = Inr s1
    \<and> read_cycle E (top_design s1)"
  then have cyc: "cycle E lambda s = Inr s'" and inj: "inject_flips E lambda s = Inr s1"
    and rd: "read_cycle E (top_design s1)"
    by simp_all
  from cycle_read(1) [OF cyc inj rd]
  show "read_with_errors s'
        = (read_with_errors s)
            [popcount (flips_array s1 ! unat (p_sram_addr E (top_design s1))) :=
               read_with_errors s ! popcount (flips_array s1 ! unat (p_sram_addr E (top_design s1))) + 1]" .
  from cycle_read(2) [OF cyc inj rd]
  show "popcount (flips_array s1 ! unat (p_sram_addr E (top_design s1))) < length (read_with_errors s)" .
  from cycle_read(3) [OF cyc inj rd] show "flips_array s' = flips_array s1" .
next
  assume a: "cycle E lambda s = Inr s' \<and> inject_flips E lambda s = Inr s1
       \<and> write_cycle E (top_design s1)"
  then have cyc: "cycle E lambda s = Inr s'" and inj: "inject_flips E lambda s = Inr s1"
    and wr: "write_cycle E (top_design s1)"
    by simp_all
  from cycle_write(1) [OF cyc inj wr]
  show "flips_array s' = (flips_array s1)[unat (p_sram_addr E (top_design s1)) := 0]" .
  from cycle_write(2) [OF cyc inj wr]
  show "unat (p_sram_addr E (top_design s1)) < length (flips_array s1)" .
  from cycle_write(3) [OF cyc inj wr] show "read_with_errors s' = read_with_errors s" .
next
  let ?s0 = "s\<lparr>generator := snd (num_flips E lambda (generator s))\<rparr>"
  assume a: "cycle E lambda s = Inr s' \<and> inject_flips E lambda s = Inr s1
       \<and> drawn_flips E lambda s = 1
       \<and> drawn_cell E ?s0 = 3 \<and> drawn_bit E ?s0 = 5
       \<and> flips_array s ! 3 = 0
       \<and> read_cycle E (top_design s1) \<and> p_sram_addr E (top_design s1) = 3"
  then have cyc: "cycle E lambda s = Inr s'" and inj: "inject_flips E lambda s = Inr s1"
    and rd: "read_cycle E (top_design s1)"
    by simp_all
  from a inj have one: "inject_one E ?s0 = Inr s1"
    by (simp add: one_flip_drawn)
  with a have "flip (flips_array ?s0) 3 5 = Inr (flips_array s1)"
    by (auto simp add: inject_one_def drawn_cell_def drawn_bit_def Let_def
        split: prod.splits sum.splits if_splits)
  with a have hit: "flips_array s1 ! 3 = 32"
    by (simp add: flip_Inr_iff)
  then show "flips_array s1 ! 3 = 32" .
  from hit a have pc: "popcount (flips_array s1 ! unat (p_sram_addr E (top_design s1))) = 1"
    by (simp add: popcount_values)
  from cycle_read(1) [OF cyc inj rd]
  show "read_with_errors s' = (read_with_errors s)[1 := read_with_errors s ! 1 + 1]"
    by (simp add: pc)
  from cycle_read(2) [OF cyc inj rd] show "1 < length (read_with_errors s)"
    by (simp add: pc)
qed

theorem read_counts_write_clears_witness:
  "cycle bench 1 bench_0 = Inr bench_1 \<and> inject_flips bench 1 bench_0 = Inr bench_0_hit
   \<and> read_cycle bench (top_design bench_0_hit)
   \<and> drawn_flips bench 1 bench_0 = 1
   \<and> drawn_cell bench (bench_0\<lparr>generator := snd (num_flips bench 1 (generator bench_0))\<rparr>) = 3
   \<and> drawn_bit bench (bench_0\<lparr>generator := snd (num_flips bench 1 (generator bench_0))\<rparr>) = 5
   \<and> flips_array bench_0 ! 3 = 0
   \<and> p_sram_addr bench (top_design bench_0_hit) = 3
   \<and> flips_array bench_0_hit ! 3 = 32
   \<and> read_with_errors bench_1 = (read_with_errors bench_0)[1 := read_with_errors bench_0 ! 1 + 1]
   \<and> flips_array bench_1 = flips_array bench_0_hit
   \<and> cycle bench 1 bench_1 = Inr bench_2 \<and> inject_flips bench 1 bench_1 = Inr bench_1_hit
   \<and> write_cycle bench (top_design bench_1_hit)
   \<and> unat (p_sram_addr bench (top_design bench_1_hit)) = 3
   \<and> flips_array bench_1_hit ! 3 = 96
   \<and> flips_array bench_2 = (flips_array bench_1_hit)[3 := 0]
   \<and> read_with_errors bench_2 = read_with_errors bench_1"
proof -
  have r0: "read_cycle bench (top_design bench_0_hit)"
    and w1: "write_cycle bench (top_design bench_1_hit)"
    by (simp_all add: model_defs bench_0_hit_def bench_1_hit_def bench_0_def bench_1_def bench_def)
  have d: "drawn_flips bench 1 bench_0 = 1"
    "drawn_cell bench (bench_0\<lparr>generator := snd (num_flips bench 1 (generator bench_0))\<rparr>) = 3"
    "drawn_bit bench (bench_0\<lparr>generator := snd (num_flips bench 1 (generator bench_0))\<rparr>) = 5"
    "flips_array bench_0 ! 3 = 0" "p_sram_addr bench (top_design bench_0_hit) = 3"
    "unat (p_sram_addr bench (top_design bench_1_hit)) = 3"
    "flips_array bench_1_hit ! 3 = 96"
    by (simp_all add: model_defs bench_0_hit_def bench_1_hit_def bench_0_def bench_1_def bench_def)
  have f: "flips_array bench_1 = flips_array bench_0_hit"
    "read_with_errors bench_2 = read_with_errors bench_1"
    by (simp_all add: bench_0_hit_def bench_1_def bench_2_def)
  from read_counts_write_clears [of bench 1 bench_0 bench_1 bench_0_hit]
    read_counts_write_clears [of bench 1 bench_1 bench_2 bench_1_hit]
  show ?thesis
    using r0 w1 d f bench_cycles bench_injected by (simp add: popcount_values)
qed

text \<open>
  C6: whatever the shadow was, right after the clear of a write cycle the popcount of
  the cell written is 0; and if the next observation finds the shadow as the write left
  it and reads the same cell, entry 0 of the histogram grows by one. In the loop: when
  a cycle writes a cell, and the next cycle draws no flip and reads that cell, the next
  cycle adds one to entry 0.
\<close>

theorem write_resets_popcount:
  "(observe_sram E s = Inr s' \<and> write_cycle E (top_design s) \<longrightarrow>
      popcount (flips_array s' ! unat (p_sram_addr E (top_design s))) = 0)
   \<and> (observe_sram E s = Inr s' \<and> write_cycle E (top_design s)
       \<and> flips_array t = flips_array s'
       \<and> read_cycle E (top_design t) \<and> p_sram_addr E (top_design t) = p_sram_addr E (top_design s)
       \<and> observe_sram E t = Inr t' \<longrightarrow>
      read_with_errors t' = (read_with_errors t)[0 := read_with_errors t ! 0 + 1]
      \<and> 0 < length (read_with_errors t))
   \<and> (inject_flips E lambda u = Inr ui \<and> write_cycle E (top_design ui)
       \<and> cycle E lambda u = Inr u1
       \<and> drawn_flips E lambda u1 = 0
       \<and> read_cycle E (top_design u1) \<and> p_sram_addr E (top_design u1) = p_sram_addr E (top_design ui)
       \<and> cycle E lambda u1 = Inr u2 \<longrightarrow>
      read_with_errors u2 = (read_with_errors u1)[0 := read_with_errors u1 ! 0 + 1]
      \<and> popcount (flips_array u1 ! unat (p_sram_addr E (top_design ui))) = 0)"
proof -
  have cleared: "popcount (flips_array s' ! unat (p_sram_addr E (top_design s))) = 0"
    if "observe_sram E s = Inr s'" and "write_cycle E (top_design s)" for s s' :: "('a, 'b) sim"
    using observe_sram_write [OF that] by (simp add: popcount_zero)
  have next_read: "read_with_errors t' = (read_with_errors t)[0 := read_with_errors t ! 0 + 1]
      \<and> 0 < length (read_with_errors t)"
    if "observe_sram E s = Inr s'" and "write_cycle E (top_design s)"
      and "flips_array t = flips_array s'" and "read_cycle E (top_design t)"
      and "p_sram_addr E (top_design t) = p_sram_addr E (top_design s)"
      and "observe_sram E t = Inr t'" for s s' t t' :: "('a, 'b) sim"
  proof -
    from cleared [OF that(1,2)] that(3,5)
    have pc: "popcount (flips_array t ! unat (p_sram_addr E (top_design t))) = 0"
      by simp
    from observe_sram_read [OF that(6,4)] show ?thesis
      by (simp add: pc)
  qed
  have in_loop: "read_with_errors u2 = (read_with_errors u1)[0 := read_with_errors u1 ! 0 + 1]
      \<and> popcount (flips_array u1 ! unat (p_sram_addr E (top_design ui))) = 0"
    if inj: "inject_flips E lambda u = Inr ui" and wr: "write_cycle E (top_design ui)"
      and c1: "cycle E lambda u = Inr u1" and none: "drawn_flips E lambda u1 = 0"
      and rd: "read_cycle E (top_design u1)"
      and addr: "p_sram_addr E (top_design u1) = p_sram_addr E (top_design ui)"
      and c2: "cycle E lambda u1 = Inr u2"
  proof -
    let ?h = "count_handshakes E ui"
    from c1 inj obtain v where obs: "observe_sram E ?h = Inr v"
      and u1: "u1 = v\<lparr>top_design := clk E (top_design v)\<rparr>"
      by (auto simp add: cycle_def split: sum.splits)
    from wr have w: "write_cycle E (top_design ?h)"
      by (simp add: count_handshakes_same)
    let ?g = "snd (num_flips E lambda (generator u1))"
    let ?k = "count_handshakes E (u1\<lparr>generator := ?g\<rparr>)"
    from none have inj2: "inject_flips E lambda u1 = Inr (u1\<lparr>generator := ?g\<rparr>)"
      by (auto simp add: inject_flips_def drawn_flips_def inject_loop.simps split: prod.splits)
    with c2 obtain v2 where obs2: "observe_sram E ?k = Inr v2"
      and u2: "u2 = v2\<lparr>top_design := clk E (top_design v2)\<rparr>"
      by (auto simp add: cycle_def split: sum.splits)
    have k: "flips_array ?k = flips_array v" "read_cycle E (top_design ?k)"
      "p_sram_addr E (top_design ?k) = p_sram_addr E (top_design ?h)"
      "read_with_errors ?k = read_with_errors u1"
      using rd addr by (simp_all add: count_handshakes_same u1)
    from next_read [OF obs w k(1,2,3) obs2] cleared [OF obs w] show ?thesis
      by (simp add: u2 k(4) u1 count_handshakes_same)
  qed
  from cleared next_read in_loop show ?thesis
    by blast
qed

theorem write_resets_popcount_witness:
  "observe_sram bench (count_handshakes bench bench_1_hit)
     = Inr ((count_handshakes bench bench_1_hit)\<lparr>flips_array := (replicate 16 0)[3 := 0]\<rparr>)
   \<and> write_cycle bench (top_design (count_handshakes bench bench_1_hit))
   \<and> popcount (flips_array bench_1_hit ! 3) = 2
   \<and> popcount (flips_array bench_2 ! 3) = 0
   \<and> inject_flips bench 1 bench_1 = Inr bench_1_hit
   \<and> write_cycle bench (top_design bench_1_hit)
   \<and> cycle bench 1 bench_1 = Inr bench_2
   \<and> drawn_flips bench 1 bench_2 = 0
   \<and> read_cycle bench (top_design bench_2)
   \<and> p_sram_addr bench (top_design bench_2) = p_sram_addr bench (top_design bench_1_hit)
   \<and> cycle bench 1 bench_2 = Inr bench_3
   \<and> observe_sram bench (count_handshakes bench bench_2)
     = Inr ((count_handshakes bench bench_2)\<lparr>read_with_errors := (replicate 9 0)[1 := 1, 0 := 1]\<rparr>)
   \<and> read_with_errors bench_3 = (read_with_errors bench_2)[0 := read_with_errors bench_2 ! 0 + 1]"
proof -
  let ?h1 = "count_handshakes bench bench_1_hit" and ?h2 = "count_handshakes bench bench_2"
  let ?x1 = "?h1\<lparr>flips_array := (replicate 16 0)[3 := 0]\<rparr>"
  let ?x2 = "?h2\<lparr>read_with_errors := (replicate 9 0)[1 := 1, 0 := 1]\<rparr>"
  have o1: "observe_sram bench ?h1 = Inr ?x1"
    by (simp add: model_defs bench_1_hit_def bench_1_def bench_def popcount_values)
  have o2: "observe_sram bench ?h2 = Inr ?x2"
    by (simp add: model_defs bench_2_def bench_def popcount_zero)
  have w1: "write_cycle bench (top_design ?h1)" "write_cycle bench (top_design bench_1_hit)"
    and r2: "read_cycle bench (top_design ?h2)" "read_cycle bench (top_design bench_2)"
    by (simp_all add: model_defs bench_1_hit_def bench_1_def bench_2_def bench_def)
  have d: "drawn_flips bench 1 bench_2 = 0" "flips_array ?h2 = flips_array ?x1"
    "p_sram_addr bench (top_design ?h2) = p_sram_addr bench (top_design ?h1)"
    "p_sram_addr bench (top_design bench_2) = p_sram_addr bench (top_design bench_1_hit)"
    "unat (p_sram_addr bench (top_design ?h1)) = 3"
    "unat (p_sram_addr bench (top_design bench_1_hit)) = 3"
    by (simp_all add: model_defs bench_1_hit_def bench_1_def bench_2_def bench_def)
  have p: "popcount (flips_array bench_1_hit ! 3) = 2"
    by (simp add: bench_1_hit_def popcount_values)
  from write_resets_popcount [of bench ?h1 ?x1 ?h2 ?x2 1 bench_1 bench_1_hit bench_2 bench_3]
  show ?thesis
    using o1 o2 w1 r2 d p bench_cycles bench_injected by simp
qed

section \<open>Runs of \<^verbatim>\<open>main\<close>\<close>

subsection \<open>The loop behind a report\<close>

lemma unat_sum_list:
  fixes xs :: "size_t list"
  shows "unat (sum_list xs) = sum_list (map unat xs) mod 2 ^ 64"
proof (induction xs)
  case Nil
  show ?case by simp
next
  case (Cons x xs)
  have "unat (x + sum_list xs) = (unat x + unat (sum_list xs)) mod 2 ^ 64"
    by (simp add: unat_word_ariths)
  also have "\<dots> = (unat x + sum_list (map unat xs) mod 2 ^ 64) mod 2 ^ 64"
    by (simp only: Cons.IH)
  also have "\<dots> = (unat x + sum_list (map unat xs)) mod 2 ^ 64"
    by (rule mod_add_right_eq)
  finally show ?case by simp
qed

subsection \<open>The flood\<close>

lemma flood_inject_one:
  assumes "flips_array s = [w]"
  shows "inject_one flood s = Inr (s\<lparr>flips_array := [w XOR 1], errors_injected := errors_injected s + 1\<rparr>)"
  using assms by (simp add: model_defs flood_def)

lemma flood_inject_loop:
  "E = flood \<Longrightarrow> flips_array s = [w] \<Longrightarrow>
     inject_loop E n s =
       Inr (s\<lparr>flips_array := [if even n then w else w XOR 1],
              errors_injected := errors_injected s + n\<rparr>)"
proof (induction E n s arbitrary: w rule: inject_loop.induct)
  case (1 E flips s)
  show ?case
  proof (cases "flips = 0")
    case True
    with "1.prems" show ?thesis
      by (simp add: inject_loop.simps)
  next
    case False
    let ?s1 = "s\<lparr>flips_array := [w XOR 1], errors_injected := errors_injected s + 1\<rparr>"
    from "1.prems" have one: "inject_one E s = Inr ?s1"
      by (simp add: flood_inject_one)
    have "flips_array ?s1 = [w XOR 1]" by simp
    from "1.IH" [OF False one "1.prems"(1) this] False show ?thesis
      by (simp add: inject_loop.simps [of E flips s] one xor.assoc)
  qed
qed

lemma flood_cycle:
  assumes "flips_array s = [w]"
  shows "cycle flood lambda s =
           Inr (s\<lparr>flips_array := [if even (of_nat (nat \<lfloor>lambda\<rfloor>) :: size_t) then w else w XOR 1],
                  errors_injected := errors_injected s + of_nat (nat \<lfloor>lambda\<rfloor>)\<rparr>)"
proof -
  have nf: "num_flips flood lambda u = (of_nat (nat \<lfloor>lambda\<rfloor>), ())" for u
    by (simp add: num_flips_def flood_def)
  have s: "s\<lparr>generator := ()\<rparr> = s" by simp
  have h: "count_handshakes flood t = t" "observe_sram flood t = Inr t"
    "t\<lparr>top_design := clk flood (top_design t)\<rparr> = t" for t :: "(unit, unit) sim"
    by (simp_all add: count_handshakes_def count_req_def count_rsp_fire_def count_rsp_ready_def
        observe_sram_def flood_def)
  show ?thesis
    by (simp add: cycle_def inject_flips_def nf s flood_inject_loop [OF refl assms] h)
qed

lemma flood_drawn: "drawn_flips flood lambda s = of_nat (nat \<lfloor>lambda\<rfloor>)"
  by (simp add: drawn_flips_def num_flips_def flood_def)

lemma flood_strtod: "strtod flood ''9223372036854775808'' = 9223372036854775808"
  by (simp add: strtod_def converts_values strtoull_values flood_def)

lemma flood_run:
  "main_loop flood 9223372036854775808 2 0 flood_0 = Inr flood_0"
  "cycle_starts flood 9223372036854775808 2 0 flood_0 = [flood_0, flood_0\<lparr>errors_injected := 9223372036854775808\<rparr>]"
proof -
  have f0: "flips_array flood_0 = [0]"
    by (simp add: flood_0_def init_sim_def num_memory_cells_def flood_def)
  have e0: "errors_injected flood_0 = 0" "flood_0\<lparr>flips_array := [0]\<rparr> = flood_0"
    "flood_0\<lparr>errors_injected := 0\<rparr> = flood_0"
    by (simp_all add: flood_0_def init_sim_def num_memory_cells_def flood_def)
  let ?s1 = "flood_0\<lparr>errors_injected := 9223372036854775808\<rparr>"
  have c0: "cycle flood 9223372036854775808 flood_0 = Inr ?s1"
    by (simp add: flood_cycle [OF f0] e0)
  have f1: "flips_array ?s1 = [0]" by (simp add: f0)
  have c1: "cycle flood 9223372036854775808 ?s1 = Inr flood_0"
    by (simp add: flood_cycle [OF f1] e0)
  show "main_loop flood 9223372036854775808 2 0 flood_0 = Inr flood_0"
    by (simp add: main_loop.simps c0 c1)
  show "cycle_starts flood 9223372036854775808 2 0 flood_0 = [flood_0, ?s1]"
    by (simp add: cycle_starts.simps c0 c1)
qed

lemma flood_main:
  "main flood () () [''sim'', ''2'', ''9223372036854775808'']
     = Inr \<lparr>status = 0, stdout = zero_report, top_at_exit = ()\<rparr>"
proof -
  have "report flood_0 = Inr zero_report"
    by (simp add: report_def flood_0_def init_sim_def num_memory_bits_def flood_def
        zero_report_def report_labels_def bucket_label_def digit_chars upt_rec)
  moreover have "init_sim flood (step flood (p_clk_set flood False ())) () = flood_0"
    by (simp add: flood_0_def)
  ultimately show ?thesis
    by (simp add: main_def flood_strtod strtoull_values flood_run(1))
qed


lemma flood_run_half:
  "main_loop flood 9223372036854775808 1 0 flood_0 = Inr flood_half"
  "cycle_starts flood 9223372036854775808 1 0 flood_0 = [flood_0]"
proof -
  have f0: "flips_array flood_0 = [0]"
    by (simp add: flood_0_def init_sim_def num_memory_cells_def flood_def)
  have e0: "errors_injected flood_0 = 0" "flood_0\<lparr>flips_array := [0]\<rparr> = flood_0"
    by (simp_all add: flood_0_def init_sim_def num_memory_cells_def flood_def)
  have c0: "cycle flood 9223372036854775808 flood_0 = Inr flood_half"
    by (simp add: flood_cycle [OF f0] e0 flood_half_def)
  show "main_loop flood 9223372036854775808 1 0 flood_0 = Inr flood_half"
    by (simp add: main_loop.simps c0)
  show "cycle_starts flood 9223372036854775808 1 0 flood_0 = [flood_0]"
    by (simp add: cycle_starts.simps c0)
qed

lemma flood_main_half:
  "main flood () () [''sim'', ''1'', ''9223372036854775808'']
     = Inr \<lparr>status = 0, stdout = flood_half_report, top_at_exit = ()\<rparr>"
proof -
  have "report flood_half = Inr flood_half_report"
    by (simp add: report_def flood_half_def flood_0_def init_sim_def num_memory_bits_def
        flood_def flood_half_report_def bucket_label_def digit_chars upt_rec)
  moreover have "init_sim flood (step flood (p_clk_set flood False ())) () = flood_0"
    by (simp add: flood_0_def)
  ultimately show ?thesis
    by (simp add: main_def flood_strtod strtoull_values flood_run_half(1))
qed

subsection \<open>The stall\<close>

lemma stall_cycle:
  "cycle stall lambda s = Inr (s\<lparr>req_valid_cycles := req_valid_cycles s + 1\<rparr>)"
  by (simp add: cycle_def inject_flips_def num_flips_def inject_loop.simps count_handshakes_def
      count_req_def count_rsp_fire_def count_rsp_ready_def observe_sram_def stall_def)

lemma stall_loop:
  "E = stall \<Longrightarrow> clk_cycle \<le> total_cycles \<Longrightarrow>
     main_loop E lambda total_cycles clk_cycle s
       = Inr (s\<lparr>req_valid_cycles := req_valid_cycles s + (total_cycles - clk_cycle)\<rparr>)"
proof (induction E lambda total_cycles clk_cycle s rule: main_loop.induct)
  case (1 E lambda total_cycles clk_cycle s)
  show ?case
  proof (cases "clk_cycle < total_cycles")
    case False
    with "1.prems"(2) have "clk_cycle = total_cycles"
      by simp
    with False show ?thesis
      by (simp add: main_loop_done)
  next
    case True
    let ?s1 = "s\<lparr>req_valid_cycles := req_valid_cycles s + 1\<rparr>"
    from "1.prems"(1) have cyc: "cycle E lambda s = Inr ?s1"
      by (simp add: stall_cycle)
    from True have "clk_cycle + 1 \<le> total_cycles"
      by (rule inc_le)
    from "1.IH" [OF True cyc "1.prems"(1) this] show ?thesis
      by (simp add: main_loop_step(1) [OF True] cyc)
  qed
qed

lemma stall_main:
  "main stall () () [''sim'', ''9223372036854775808'', ''0'']
     = Inr \<lparr>status = 0, stdout = stall_report, top_at_exit = ()\<rparr>"
proof -
  let ?s0 = "init_sim stall () ()"
  have "main_loop stall lambda 9223372036854775808 0 ?s0
          = Inr (?s0\<lparr>req_valid_cycles := 9223372036854775808\<rparr>)" for lambda
    using stall_loop [OF refl, of 0 9223372036854775808 lambda ?s0]
    by (simp add: init_sim_def)
  moreover have "report (?s0\<lparr>req_valid_cycles := 9223372036854775808\<rparr>) = Inr stall_report"
    by (simp add: report_def init_sim_def num_memory_bits_def stall_def stall_report_def
        bucket_label_def digit_chars upt_rec)
  moreover have "step stall (p_clk_set stall False ()) = ()"
    by simp
  ultimately show ?thesis
    by (simp add: main_def strtoull_values)
qed

subsection \<open>The bench without flips\<close>

lemma bench_quiet_cycles:
  "cycle bench 0 bench_0 = Inr bench_quiet_1"
  "cycle bench 0 bench_quiet_1 = Inr bench_quiet_2"
  "inject_flips bench 0 bench_0 = Inr bench_0"
  "inject_flips bench 0 bench_quiet_1 = Inr bench_quiet_1"
  by (simp_all add: model_defs bench_0_def bench_quiet_1_def bench_quiet_2_def bench_def
      inject_loop.simps popcount_zero list_update_same_conv)

lemma bench_steps:
  "step bench (p_clk_set bench False c) = Suc c"
  "init_sim bench (Suc 0) 0 = bench_0"
  by (simp_all add: bench_def bench_0_def)

lemma bench_quiet_main:
  "main bench 0 0 [''sim'', ''2'', ''0'']
     = Inr \<lparr>status = 0, stdout = bench_quiet_report, top_at_exit = 6\<rparr>"
  "main bench 0 0 [''sim'', ''2'', ''x'']
     = Inr \<lparr>status = 0, stdout = bench_quiet_report, top_at_exit = 6\<rparr>"
proof -
  have "report bench_quiet_2 = Inr bench_quiet_report"
    by (simp add: report_def bench_quiet_2_def bench_quiet_1_def bench_0_def init_sim_def
        bench_quiet_report_def bucket_label_def digit_chars upt_rec)
  moreover have "top_design bench_quiet_2 = 5"
    by (simp add: bench_quiet_2_def)
  moreover have "main_loop bench 0 2 0 bench_0 = Inr bench_quiet_2"
    by (simp add: main_loop.simps bench_quiet_cycles)
  ultimately show "main bench 0 0 [''sim'', ''2'', ''0'']
     = Inr \<lparr>status = 0, stdout = bench_quiet_report, top_at_exit = 6\<rparr>"
    and "main bench 0 0 [''sim'', ''2'', ''x'']
     = Inr \<lparr>status = 0, stdout = bench_quiet_report, top_at_exit = 6\<rparr>"
    by (simp_all add: main_def bench_strtod strtoull_values bench_steps)
qed

lemma bench_run_starts:
  "run_starts bench 0 0 [''sim'', ''3'', ''1''] = [bench_0, bench_1, bench_2]"
  "run_starts bench 0 0 [''sim'', ''2'', ''0''] = [bench_0, bench_quiet_1]"
  by (simp_all add: run_starts_def bench_strtod strtoull_values bench_steps cycle_starts.simps
      bench_cycles bench_quiet_cycles)

lemma main_no_cycles:
  assumes "3 \<le> length argv" and "strtoull (argv ! 1) = 0" and "histogram_printable E"
  shows "main E c g argv
           = Inr \<lparr>status = 0, stdout = zero_report,
                  top_at_exit = step E (p_clk_set E False (step E (p_clk_set E False c)))\<rparr>"
proof -
  let ?s0 = "init_sim E (step E (p_clk_set E False c)) g"
  have loop: "main_loop E lambda 0 0 ?s0 = Inr ?s0" for lambda
    by (simp add: main_loop.simps)
  from assms(3) have "report ?s0 = Inr zero_report"
    by (simp add: report_def init_sim_def histogram_printable_def zero_report_def
        report_labels_def bucket_label_def digit_chars upt_rec)
  moreover have "top_design ?s0 = step E (p_clk_set E False c)"
    by (simp add: init_sim_def)
  ultimately show ?thesis
    using assms(1,2) by (simp add: main_def loop)
qed

lemma bench_run_end:
  "run_end bench 0 0 [''sim'', ''3'', ''1''] = Inr bench_3"
  "run_end bench 0 0 [''sim'', ''2'', ''0''] = Inr bench_quiet_2"
  by (simp_all add: run_end_def bench_strtod strtoull_values bench_steps main_loop.simps
      bench_cycles bench_quiet_cycles)

section \<open>The claims about a whole run\<close>

text \<open>
  C3, as the specification states it: the \<^verbatim>\<open>errors_injected\<close> reported equals the sum of the
  flip counts drawn in the cycles of the run. The counter is a \<^verbatim>\<open>size_t\<close>, it wraps
  around, and the report prints it as a signed number. On \<open>flood\<close>, called with the
  arguments \<^verbatim>\<open>2\<close> and \<^verbatim>\<open>9223372036854775808\<close>, each of the two cycles draws \<open>2 ^ 63\<close> flips:
  their sum is \<open>2 ^ 64\<close> and the run reports 0. Called with \<^verbatim>\<open>1\<close> and
  \<^verbatim>\<open>9223372036854775808\<close>, the one cycle draws \<open>2 ^ 63\<close> flips and the run reports
  \<open>- 2 ^ 63\<close>.
\<close>

theorem errors_injected_wraps:
  "main flood () () [''sim'', ''2'', ''9223372036854775808'']
     = Inr \<lparr>status = 0, stdout = zero_report, top_at_exit = ()\<rparr>
   \<and> reported \<lparr>status = 0, stdout = zero_report, top_at_exit = ()\<rparr> ''errors_injected'' = Some 0
   \<and> flips_log flood () () [''sim'', ''2'', ''9223372036854775808'']
     = [9223372036854775808, 9223372036854775808]
   \<and> sum_list (map unat (flips_log flood () () [''sim'', ''2'', ''9223372036854775808'']))
     = 18446744073709551616
   \<and> main flood () () [''sim'', ''1'', ''9223372036854775808'']
     = Inr \<lparr>status = 0, stdout = flood_half_report, top_at_exit = ()\<rparr>
   \<and> reported \<lparr>status = 0, stdout = flood_half_report, top_at_exit = ()\<rparr> ''errors_injected''
     = Some (- 9223372036854775808)
   \<and> flips_log flood () () [''sim'', ''1'', ''9223372036854775808''] = [9223372036854775808]"
proof -
  have log: "flips_log flood () () [''sim'', ''2'', ''9223372036854775808'']
     = [9223372036854775808, 9223372036854775808]"
    by (simp add: flips_log_def run_starts_def flood_strtod strtoull_values flood_drawn
        flood_run(2) [unfolded flood_0_def])
  have log1: "flips_log flood () () [''sim'', ''1'', ''9223372036854775808''] = [9223372036854775808]"
    by (simp add: flips_log_def run_starts_def flood_strtod strtoull_values flood_drawn
        flood_run_half(2) [unfolded flood_0_def])
  have "reported \<lparr>status = 0, stdout = zero_report, top_at_exit = ()\<rparr> ''errors_injected'' = Some 0"
    by (simp add: reported_def zero_report_def report_labels_def)
  moreover have "reported \<lparr>status = 0, stdout = flood_half_report, top_at_exit = ()\<rparr> ''errors_injected''
     = Some (- 9223372036854775808)"
    by (simp add: reported_def flood_half_report_def)
  ultimately show ?thesis
    using flood_main flood_main_half log log1 by simp
qed

text \<open>
  C3, amended: when the loop ends, the counter \<^verbatim>\<open>errors_injected\<close> is the sum of the flip
  counts drawn in the cycles of the run, taken in \<^verbatim>\<open>size_t\<close>, that is modulo \<open>2 ^ 64\<close>. The
  report prints the counter with \<^verbatim>\<open>%zd\<close>, as a signed number. The number reported equals
  the sum itself whenever the sum is below \<open>2 ^ 63\<close>.
\<close>

theorem errors_injected_is_sum_of_draws:
  assumes "main E c g argv = Inr r" and "3 \<le> length argv"
    and "run_end E c g argv = Inr s'"
  shows "errors_injected s' = sum_list (flips_log E c g argv)
         \<and> unat (errors_injected s') = sum_list (map unat (flips_log E c g argv)) mod 2 ^ 64
         \<and> reported r ''errors_injected'' = Some (sint (errors_injected s'))
         \<and> (sum_list (map unat (flips_log E c g argv)) < 2 ^ 63 \<longrightarrow>
              reported r ''errors_injected''
                = Some (int (sum_list (map unat (flips_log E c g argv)))))"
proof -
  let ?n = "sum_list (map unat (flips_log E c g argv))"
  note rep = main_end [OF assms]
  from main_loop_errors_injected [OF assms(3) [unfolded run_end_def]]
  have sum: "errors_injected s' = sum_list (flips_log E c g argv)"
    by (simp add: flips_log_def run_starts_def init_sim_simps)
  then have md: "unat (errors_injected s') = ?n mod 2 ^ 64"
    by (simp only: unat_sum_list)
  have shown: "reported r ''errors_injected'' = Some (sint (errors_injected s'))"
    using report_Inr(6) [OF rep] by (simp add: reported_def)
  have "reported r ''errors_injected'' = Some (int ?n)" if small: "?n < 2 ^ 63"
  proof -
    have "(2 :: nat) ^ 63 \<le> 2 ^ 64"
      by (rule power_increasing) simp_all
    with small have "?n < 2 ^ 64"
      by (rule less_le_trans)
    then have "?n mod 2 ^ 64 = ?n"
      by (rule mod_less)
    with md have u: "unat (errors_injected s') = ?n"
      by (simp only:)
    with small have "unat (errors_injected s') < 2 ^ 63"
      by (simp only:)
    then have "sint (errors_injected s') = int (unat (errors_injected s'))"
      by (rule sint_small)
    with u shown show ?thesis
      by (simp only:)
  qed
  with sum md shown show ?thesis
    by blast
qed

theorem errors_injected_is_sum_of_draws_witness:
  "main bench 0 0 [''sim'', ''3'', ''1'']
     = Inr \<lparr>status = 0, stdout = bench_report, top_at_exit = 8\<rparr>
   \<and> run_end bench 0 0 [''sim'', ''3'', ''1''] = Inr bench_3
   \<and> flips_log bench 0 0 [''sim'', ''3'', ''1''] = [1, 1, 0]
   \<and> errors_injected bench_3 = 2
   \<and> reported \<lparr>status = 0, stdout = bench_report, top_at_exit = 8 :: nat\<rparr> ''errors_injected''
     = Some 2"
proof -
  have log: "flips_log bench 0 0 [''sim'', ''3'', ''1''] = [1, 1, 0]"
    by (simp add: flips_log_def bench_run_starts bench_strtod)
      (simp add: drawn_flips_def num_flips_def bench_0_def bench_1_def bench_2_def init_sim_def
        bench_def)
  have e: "errors_injected bench_3 = 2"
    by (simp add: bench_3_def)
  from errors_injected_is_sum_of_draws [OF bench_main _ bench_run_end(1)] show ?thesis
    by (simp add: bench_main bench_run_end log e)
qed

text \<open>
  C4, as the specification states it: at every point of every run, and hence in the
  final report, the fire counters do not exceed their valid and ready counters. The
  report prints the counters with \<^verbatim>\<open>%zd\<close>, as signed numbers. On \<open>stall\<close>, called with the
  arguments \<^verbatim>\<open>9223372036854775808\<close> and \<^verbatim>\<open>0\<close>, the request is valid and not taken in each
  of the \<open>2 ^ 63\<close> cycles: the report shows \<^verbatim>\<open>req_fire_cycles\<close> 0 above
  \<^verbatim>\<open>req_valid_cycles\<close> \<open>- 2 ^ 63\<close>.
\<close>

theorem report_shows_fire_above_valid:
  "main stall () () [''sim'', ''9223372036854775808'', ''0'']
     = Inr \<lparr>status = 0, stdout = stall_report, top_at_exit = ()\<rparr>
   \<and> reported \<lparr>status = 0, stdout = stall_report, top_at_exit = ()\<rparr> ''req_fire_cycles''
     = Some 0
   \<and> reported \<lparr>status = 0, stdout = stall_report, top_at_exit = ()\<rparr> ''req_valid_cycles''
     = Some (- 9223372036854775808)
   \<and> \<not> (0 :: int) \<le> - 9223372036854775808"
  by (simp add: stall_main) (simp add: reported_def stall_report_def)

text \<open>
  C4, amended: at the start of every cycle of every run, after every single increment
  of a handshake counter and when the loop ends, the fire counters do not exceed their
  valid and ready counters, and from the start of a cycle to its end a fire counter
  changes only together with one more count of its valid or ready counter. The counters
  are \<^verbatim>\<open>size_t\<close>; none of them wraps, since each grows by at most one in a cycle and the
  number of cycles is itself a \<^verbatim>\<open>size_t\<close>. The report prints the final counters with
  \<^verbatim>\<open>%zd\<close>, as signed numbers: the numbers printed are in the same order for every run of
  fewer than \<open>2 ^ 63\<close> cycles.
\<close>

theorem fire_counters_below_valid_counters:
  assumes "main E c g argv = Inr r" and "3 \<le> length argv"
    and "run_end E c g argv = Inr s'"
  shows "handshakes_ordered s'
         \<and> (\<forall>t \<in> set (run_starts E c g argv).
               handshakes_ordered t
               \<and> (\<forall>p \<in> set (cycle_points E (strtod E (argv ! 2)) t). handshakes_ordered p)
               \<and> (\<forall>t'. cycle E (strtod E (argv ! 2)) t = Inr t' \<longrightarrow> fire_with_valid t t'))
         \<and> reported r ''req_fire_cycles'' = Some (sint (req_fire_cycles s'))
         \<and> reported r ''req_valid_cycles'' = Some (sint (req_valid_cycles s'))
         \<and> reported r ''rsp_fire_cycles'' = Some (sint (rsp_fire_cycles s'))
         \<and> reported r ''rsp_ready_cycles'' = Some (sint (rsp_ready_cycles s'))
         \<and> (unat (strtoull (argv ! 1)) < 2 ^ 63 \<longrightarrow>
              sint (req_fire_cycles s') \<le> sint (req_valid_cycles s')
              \<and> sint (rsp_fire_cycles s') \<le> sint (rsp_ready_cycles s'))"
proof -
  let ?s0 = "init_sim E (step E (p_clk_set E False c)) g"
  note rep = main_end [OF assms]
  note loop = assms(3) [unfolded run_end_def]
  have start: "counted_within (unat (0 :: size_t)) ?s0"
    by (simp add: counted_within_def handshakes_ordered_def init_sim_simps)
  from main_loop_handshakes [OF loop start]
  have fin: "handshakes_ordered s'"
    and run: "\<forall>t \<in> set (run_starts E c g argv).
               handshakes_ordered t
               \<and> (\<forall>p \<in> set (cycle_points E (strtod E (argv ! 2)) t). handshakes_ordered p)
               \<and> (\<forall>t'. cycle E (strtod E (argv ! 2)) t = Inr t' \<longrightarrow> fire_with_valid t t')"
    by (simp_all add: run_starts_def)
  from main_loop_counted [OF loop start]
  have within: "counted_within (unat (strtoull (argv ! 1))) s'"
    by simp
  have shown: "reported r ''req_fire_cycles'' = Some (sint (req_fire_cycles s'))"
    "reported r ''req_valid_cycles'' = Some (sint (req_valid_cycles s'))"
    "reported r ''rsp_fire_cycles'' = Some (sint (rsp_fire_cycles s'))"
    "reported r ''rsp_ready_cycles'' = Some (sint (rsp_ready_cycles s'))"
    using report_Inr(2-5) [OF rep] by (simp_all add: reported_def)
  have printed: "sint (req_fire_cycles s') \<le> sint (req_valid_cycles s')
              \<and> sint (rsp_fire_cycles s') \<le> sint (rsp_ready_cycles s')"
    if few: "unat (strtoull (argv ! 1)) < 2 ^ 63"
  proof -
    from within have vt: "unat (req_valid_cycles s') \<le> unat (strtoull (argv ! 1))"
      and rt: "unat (rsp_ready_cycles s') \<le> unat (strtoull (argv ! 1))"
      by (simp_all only: counted_within_def)
    from vt few have v: "unat (req_valid_cycles s') < 2 ^ 63"
      by (rule le_less_trans)
    from rt few have rd: "unat (rsp_ready_cycles s') < 2 ^ 63"
      by (rule le_less_trans)
    from fin have "req_fire_cycles s' \<le> req_valid_cycles s'"
      and "rsp_fire_cycles s' \<le> rsp_ready_cycles s'"
      by (simp_all only: handshakes_ordered_def)
    then show ?thesis
      using v rd by (intro conjI sint_mono_small)
  qed
  from fin run shown printed show ?thesis
    by blast
qed

theorem fire_counters_below_valid_counters_witness:
  "main bench 0 0 [''sim'', ''3'', ''1'']
     = Inr \<lparr>status = 0, stdout = bench_report, top_at_exit = 8\<rparr>
   \<and> run_end bench 0 0 [''sim'', ''3'', ''1''] = Inr bench_3
   \<and> unat (strtoull ''3'') < 2 ^ 63
   \<and> handshakes_ordered bench_3
   \<and> reported \<lparr>status = 0, stdout = bench_report, top_at_exit = 8 :: nat\<rparr> ''req_fire_cycles''
     = Some 1
   \<and> reported \<lparr>status = 0, stdout = bench_report, top_at_exit = 8 :: nat\<rparr> ''req_valid_cycles''
     = Some 1
   \<and> reported \<lparr>status = 0, stdout = bench_report, top_at_exit = 8 :: nat\<rparr> ''rsp_fire_cycles''
     = Some 2
   \<and> reported \<lparr>status = 0, stdout = bench_report, top_at_exit = 8 :: nat\<rparr> ''rsp_ready_cycles''
     = Some 3
   \<and> run_starts bench 0 0 [''sim'', ''3'', ''1''] = [bench_0, bench_1, bench_2]
   \<and> handshakes_ordered bench_0 \<and> handshakes_ordered bench_1 \<and> handshakes_ordered bench_2
   \<and> cycle bench 1 bench_1 = Inr bench_2
   \<and> fire_with_valid bench_1 bench_2"
proof -
  have rep: "reported \<lparr>status = 0, stdout = bench_report, top_at_exit = 8 :: nat\<rparr> ''req_fire_cycles''
     = Some 1"
    "reported \<lparr>status = 0, stdout = bench_report, top_at_exit = 8 :: nat\<rparr> ''req_valid_cycles''
     = Some 1"
    "reported \<lparr>status = 0, stdout = bench_report, top_at_exit = 8 :: nat\<rparr> ''rsp_fire_cycles''
     = Some 2"
    "reported \<lparr>status = 0, stdout = bench_report, top_at_exit = 8 :: nat\<rparr> ''rsp_ready_cycles''
     = Some 3"
    by (simp_all add: reported_def bench_report_def)
  have few: "unat (strtoull ''3'') < 2 ^ 63"
    by (simp add: strtoull_values)
  from fire_counters_below_valid_counters [OF bench_main _ bench_run_end(1)] show ?thesis
    by (simp add: bench_main bench_run_end rep strtoull_values bench_run_starts bench_strtod
        bench_cycles)
qed

text \<open>
  C7: when the mean parsed from the second argument is 0 and the Poisson source then
  draws no flip, the counter \<^verbatim>\<open>errors_injected\<close> is 0 when the loop ends and is reported
  as 0, and entry 0 of the histogram is then the number of cycles that observed a read,
  whatever the number of cycles. The report prints the entry with \<^verbatim>\<open>%zd\<close>, as a signed
  number: it shows the number of reads whenever that is below \<open>2 ^ 63\<close>.
\<close>

theorem zero_mean_run:
  assumes "main E c g argv = Inr r" and "3 \<le> length argv"
    and "run_end E c g argv = Inr s'"
    and "strtod E (argv ! 2) = 0"
    and "\<forall>g. fst (poisson_distribution E 0 g) = 0"
  shows "errors_injected s' = 0
         \<and> reported r ''errors_injected'' = Some 0
         \<and> unat (read_with_errors s' ! 0)
             = length (filter (read_observed E 0) (run_starts E c g argv))
         \<and> reported r ''read_with_errors[0]'' = Some (sint (read_with_errors s' ! 0))
         \<and> (length (filter (read_observed E 0) (run_starts E c g argv)) < 2 ^ 63 \<longrightarrow>
              reported r ''read_with_errors[0]''
                = Some (int (length (filter (read_observed E 0) (run_starts E c g argv)))))"
proof -
  let ?s0 = "init_sim E (step E (p_clk_set E False c)) g"
  let ?n = "length (filter (read_observed E 0) (run_starts E c g argv))"
  note rep = main_end [OF assms(1-3)]
  from assms(3,4) have loop0: "main_loop E 0 (strtoull (argv ! 1)) 0 ?s0 = Inr s'"
    by (simp add: run_end_def)
  have starts: "run_starts E c g argv = cycle_starts E 0 (strtoull (argv ! 1)) 0 ?s0"
    by (simp add: run_starts_def assms(4))
  note fin = main_loop_no_flips [OF loop0 assms(5) init_sim_simps(6)]
  from fin report_Inr(8) [OF rep] have "0 < unat (num_memory_bits E + 1)"
    by (simp add: init_sim_simps)
  then have "read_with_errors ?s0 ! 0 = 0"
    by (simp add: init_sim_simps)
  with fin have ei: "errors_injected s' = 0"
    and b0: "read_with_errors s' ! 0 = of_nat ?n"
    by (simp_all add: init_sim_simps starts)
  have "?n \<le> length (run_starts E c g argv)"
    by (rule length_filter_le)
  moreover have "length (run_starts E c g argv) = unat (strtoull (argv ! 1))"
    using length_cycle_starts [OF loop0] by (simp add: starts)
  ultimately have "?n \<le> unat (strtoull (argv ! 1))"
    by simp
  then have "unat (of_nat ?n :: size_t) = ?n"
    by (rule le_unat_uoi)
  with b0 have u: "unat (read_with_errors s' ! 0) = ?n"
    by (simp only:)
  have shown: "reported r ''errors_injected'' = Some 0"
    "reported r ''read_with_errors[0]'' = Some (sint (read_with_errors s' ! 0))"
    using report_Inr(6,7) [OF rep] ei by (simp_all add: reported_def)
  have "reported r ''read_with_errors[0]'' = Some (int ?n)" if small: "?n < 2 ^ 63"
  proof -
    from small u have "unat (read_with_errors s' ! 0) < 2 ^ 63"
      by (simp only:)
    then have "sint (read_with_errors s' ! 0) = int (unat (read_with_errors s' ! 0))"
      by (rule sint_small)
    with u shown(2) show ?thesis
      by (simp only:)
  qed
  with ei u shown show ?thesis
    by blast
qed

theorem zero_mean_run_witness:
  "main bench 0 0 [''sim'', ''2'', ''0'']
     = Inr \<lparr>status = 0, stdout = bench_quiet_report, top_at_exit = 6\<rparr>
   \<and> run_end bench 0 0 [''sim'', ''2'', ''0''] = Inr bench_quiet_2
   \<and> strtod bench ''0'' = 0
   \<and> fst (poisson_distribution bench 0 5) = 0
   \<and> run_starts bench 0 0 [''sim'', ''2'', ''0''] = [bench_0, bench_quiet_1]
   \<and> read_observed bench 0 bench_0 \<and> \<not> read_observed bench 0 bench_quiet_1
   \<and> errors_injected bench_quiet_2 = 0
   \<and> read_with_errors bench_quiet_2 ! 0 = 1
   \<and> reported \<lparr>status = 0, stdout = bench_quiet_report, top_at_exit = 6 :: nat\<rparr> ''errors_injected''
     = Some 0
   \<and> reported \<lparr>status = 0, stdout = bench_quiet_report, top_at_exit = 6 :: nat\<rparr> ''read_with_errors[0]''
     = Some 1"
proof -
  have p0: "\<forall>g. fst (poisson_distribution bench 0 g) = 0"
    by (simp add: bench_def)
  have ro: "read_observed bench 0 bench_0" "\<not> read_observed bench 0 bench_quiet_1"
    by (simp_all add: read_observed_def bench_quiet_cycles)
      (simp_all add: read_cycle_def bench_0_def bench_quiet_1_def init_sim_def bench_def)
  have q: "errors_injected bench_quiet_2 = 0" "read_with_errors bench_quiet_2 ! 0 = 1"
    by (simp_all add: bench_quiet_2_def bench_quiet_1_def bench_0_def init_sim_def)
  from zero_mean_run [OF bench_quiet_main(1) _ bench_run_end(2) _ p0] show ?thesis
    by (simp add: bench_quiet_main bench_run_end bench_strtod bench_run_starts ro p0 q)
qed

text \<open>
  C8: called with at least two arguments of which the first parses to 0 cycles, on a
  design whose cells give the histogram its five printed entries, \<^verbatim>\<open>main\<close> prints 0 for
  the five counters and for the five entries of the histogram and exits with status 0.
  The design has only taken the two half-steps before and after the empty loop.
\<close>

theorem no_cycles_all_zero:
  assumes "3 \<le> length argv" and "strtoull (argv ! 1) = 0" and "histogram_printable E"
  shows "main E c g argv
           = Inr \<lparr>status = 0, stdout = zero_report,
                  top_at_exit = step E (p_clk_set E False (step E (p_clk_set E False c)))\<rparr>"
  using assms by (rule main_no_cycles)

theorem no_cycles_all_zero_witness:
  "strtoull ''0'' = 0 \<and> histogram_printable bench
   \<and> main bench 0 0 [''sim'', ''0'', ''1'']
     = Inr \<lparr>status = 0, stdout = zero_report, top_at_exit = 2\<rparr>
   \<and> zero_report
     = [(''req_valid_cycles'', 0), (''req_fire_cycles'', 0), (''rsp_ready_cycles'', 0),
        (''rsp_fire_cycles'', 0), (''errors_injected'', 0), (''read_with_errors[0]'', 0),
        (''read_with_errors[1]'', 0), (''read_with_errors[2]'', 0),
        (''read_with_errors[3]'', 0), (''read_with_errors[4]'', 0)]"
proof -
  have h: "histogram_printable bench"
    by (simp add: histogram_printable_def num_memory_bits_def bench_def)
  from no_cycles_all_zero [of "[''sim'', ''0'', ''1'']" bench 0 0, OF _ _ h] show ?thesis
    by (simp add: strtoull_values h bench_steps zero_report_def report_labels_def)
qed

text \<open>
  C9: called with fewer than two arguments (\<^verbatim>\<open>argc < 3\<close>), \<^verbatim>\<open>main\<close> exits with status 1,
  has printed nothing and has not touched the design.
\<close>

theorem too_few_arguments:
  assumes "length argv < 3"
  shows "main E c g argv = Inr \<lparr>status = 1, stdout = [], top_at_exit = c\<rparr>"
  using assms by (simp add: main_def)

theorem too_few_arguments_witness:
  "length [''sim''] < 3
   \<and> main bench 0 0 [''sim''] = Inr \<lparr>status = 1, stdout = [], top_at_exit = 0\<rparr>"
  using too_few_arguments [of "[''sim'']" bench 0 0] by simp

text \<open>
  C10: an argument that is not a numeral is no usage error. \<^verbatim>\<open>strtoull\<close> gives 0 cycles
  for a first argument it cannot convert and \<^verbatim>\<open>strtod\<close> gives the mean 0 for a second
  argument it cannot convert. With 0 cycles the loop is empty and \<^verbatim>\<open>main\<close> prints the
  report of zeros and exits with status 0; and whatever the two arguments are, on
  collaborators that keep the run inside its arrays \<^verbatim>\<open>main\<close> runs its loop, prints the ten
  lines of the report and exits with status 0.
\<close>

theorem non_numeral_arguments_run:
  assumes "3 \<le> length argv"
  shows "(\<not> strtoull_converts (argv ! 1) \<longrightarrow> strtoull (argv ! 1) = 0)
         \<and> (\<not> strtod_converts (argv ! 2) \<longrightarrow> strtod E (argv ! 2) = 0)
         \<and> (\<not> strtoull_converts (argv ! 1) \<and> histogram_printable E \<longrightarrow>
              main E c g argv
                = Inr \<lparr>status = 0, stdout = zero_report,
                       top_at_exit = step E (p_clk_set E False (step E (p_clk_set E False c)))\<rparr>)
         \<and> (well_formed E \<longrightarrow>
              (\<exists>r. main E c g argv = Inr r \<and> status r = 0
                    \<and> map fst (stdout r) = report_labels))"
proof (intro conjI impI)
  have zero: "strtoull s = 0" if "\<not> strtoull_converts s" for s
    using that by (simp add: strtoull_converts_def strtoull_def Let_def)
  show "strtoull (argv ! 1) = 0" if "\<not> strtoull_converts (argv ! 1)"
    using that by (rule zero)
  show "strtod E (argv ! 2) = 0" if "\<not> strtod_converts (argv ! 2)"
    using that by (simp add: strtod_def)
  show "main E c g argv
          = Inr \<lparr>status = 0, stdout = zero_report,
                 top_at_exit = step E (p_clk_set E False (step E (p_clk_set E False c)))\<rparr>"
    if "\<not> strtoull_converts (argv ! 1) \<and> histogram_printable E"
    using that assms by (intro main_no_cycles zero) simp_all
  show "\<exists>r. main E c g argv = Inr r \<and> status r = 0 \<and> map fst (stdout r) = report_labels"
    if wf: "well_formed E"
  proof -
    let ?s0 = "init_sim E (step E (p_clk_set E False c)) g"
    from main_loop_returns [OF wf init_sim_arrays_ok [OF wf]] obtain s' where
      loop: "main_loop E (strtod E (argv ! 2)) (strtoull (argv ! 1)) 0 ?s0 = Inr s'"
      and ok: "arrays_ok E s'"
      by blast
    from ok well_formed_bits(2) [OF wf] have "5 \<le> length (read_with_errors s')"
      by (simp add: arrays_ok_def)
    then obtain out where rep: "report s' = Inr out"
      by (simp add: report_def)
    from report_Inr(1) [OF rep] assms loop rep show ?thesis
      by (simp add: main_def)
  qed
qed


theorem non_numeral_arguments_run_witness:
  "\<not> strtoull_converts ''x'' \<and> \<not> strtod_converts ''x''
   \<and> strtoull ''x'' = 0 \<and> strtod bench ''x'' = 0
   \<and> histogram_printable bench \<and> well_formed bench
   \<and> main bench 0 0 [''sim'', ''x'', ''x'']
     = Inr \<lparr>status = 0, stdout = zero_report, top_at_exit = 2\<rparr>
   \<and> main bench 0 0 [''sim'', ''2'', ''x'']
     = Inr \<lparr>status = 0, stdout = bench_quiet_report, top_at_exit = 6\<rparr>
   \<and> map fst bench_quiet_report = report_labels"
proof -
  have h: "histogram_printable bench"
    by (simp add: histogram_printable_def num_memory_bits_def bench_def)
  have l: "map fst bench_quiet_report = report_labels"
    by (simp add: bench_quiet_report_def report_labels_def)
  from non_numeral_arguments_run [of "[''sim'', ''x'', ''x'']" bench 0 0]
    non_numeral_arguments_run [of "[''sim'', ''2'', ''x'']" bench 0 0]
  show ?thesis
    by (simp add: converts_values strtoull_values bench_strtod h bench_well_formed bench_steps
        bench_quiet_main l)
qed

end
